theory Spec2Isabelle
  imports Main "HOL-Library.Word"
begin

section \<open>FullBinaryTree: data model\<close>

text \<open>
  The C++ class template \<^verbatim>\<open>FullBinaryTree<T>\<close> keeps a heap of \<^verbatim>\<open>Node\<close> structs
  (\<^verbatim>\<open>data\<close>, \<^verbatim>\<open>left\<close>, \<^verbatim>\<open>right\<close>) behind an owning \<^verbatim>\<open>root\<close> pointer and a
  \<^verbatim>\<open>size_t size\<close> counter. A \<^verbatim>\<open>Node*\<close> is modelled as \<open>'a node option\<close>
  (\<open>None\<close> is \<^verbatim>\<open>nullptr\<close>). Ownership is tree shaped, so the address of a node
  inside the tree is the path that leads to it from the root; the breadth-first
  queues of the code hold such addresses together with the node they point to.
  \<^verbatim>\<open>size_t\<close> is a 64-bit unsigned machine integer.
\<close>

datatype 'a node = Node (data: 'a) (left: "'a node option") (right: "'a node option")

type_synonym size_t = "64 word"

record 'a FullBinaryTree =
  root :: "'a node option"
  size_f :: size_t

datatype side = Left | Right

type_synonym path = "side list"

type_synonym 'a ptr = "path \<times> 'a node"

text \<open>The default constructor: \<^verbatim>\<open>root(nullptr), size(0)\<close>.\<close>

definition empty_tree :: "'a FullBinaryTree" where
  "empty_tree = \<lparr>root = None, size_f = 0\<rparr>"

text \<open>Number of nodes reachable from a pointer.\<close>

fun count_nodes :: "'a node option \<Rightarrow> nat" where
  "count_nodes None = 0"
| "count_nodes (Some (Node d l r)) = 1 + count_nodes l + count_nodes r"

text \<open>Dereferencing a path below a node, and writing through it.\<close>

fun child :: "side \<Rightarrow> 'a node \<Rightarrow> 'a node option" where
  "child Left n = left n"
| "child Right n = right n"

fun deref :: "'a node option \<Rightarrow> path \<Rightarrow> 'a node option" where
  "deref None p = None"
| "deref (Some n) [] = Some n"
| "deref (Some n) (s # p) = deref (child s n) p"

fun update_at :: "path \<Rightarrow> ('a node \<Rightarrow> 'a node) \<Rightarrow> 'a node option \<Rightarrow> 'a node option" where
  "update_at p f None = None"
| "update_at [] f (Some n) = Some (f n)"
| "update_at (Left # p) f (Some (Node d l r)) = Some (Node d (update_at p f l) r)"
| "update_at (Right # p) f (Some (Node d l r)) = Some (Node d l (update_at p f r))"

subsection \<open>insert\<close>

text \<open>
  The two conditional pushes that end every breadth-first loop body:
  \<^verbatim>\<open>if (current->left) q.push(current->left); if (current->right) q.push(current->right);\<close>
\<close>

definition push_children :: "'a ptr list \<Rightarrow> 'a ptr \<Rightarrow> 'a ptr list" where
  "push_children q current =
     (let q1 = (case left (snd current) of None \<Rightarrow> q
                | Some l \<Rightarrow> q @ [(fst current @ [Left], l)])
      in (case right (snd current) of None \<Rightarrow> q1
          | Some r \<Rightarrow> q1 @ [(fst current @ [Right], r)]))"

definition queue_weight :: "'a ptr list \<Rightarrow> nat" where
  "queue_weight q = sum_list (map (\<lambda>c. count_nodes (Some (snd c))) q)"

lemma queue_weight_push:
  "queue_weight (push_children q (p, Node d l r)) = queue_weight q + count_nodes l + count_nodes r"
  by (simp add: push_children_def queue_weight_def split: option.splits)

text \<open>
  The \<^verbatim>\<open>while (!q.empty())\<close> loop of \<^verbatim>\<open>insert\<close>. It returns the address of the
  node that receives the two children, or \<open>None\<close> when the queue runs empty and
  the function falls off the loop without inserting.
\<close>

function insert_loop :: "'a ptr list \<Rightarrow> path option" where
  "insert_loop [] = None"
| "insert_loop (current # q) =
     (if left (snd current) = None \<and> right (snd current) = None
      then Some (fst current)
      else insert_loop (push_children q current))"
  by pat_completeness auto
termination
proof (relation "measure queue_weight")
  show "wf (measure queue_weight)" by simp
next
  fix current :: "'a ptr" and q
  obtain p d l r where c: "current = (p, Node d l r)"
    by (cases current, cases "snd current") auto
  show "(push_children q current, current # q) \<in> measure queue_weight"
    unfolding c by (simp add: queue_weight_push) (simp add: queue_weight_def)
qed

definition add_children :: "'a \<Rightarrow> 'a node \<Rightarrow> 'a node" where
  "add_children v n = Node (data n) (Some (Node v None None)) (Some (Node v None None))"

definition insert_tree :: "'a \<Rightarrow> 'a FullBinaryTree \<Rightarrow> 'a FullBinaryTree" where
  "insert_tree v t =
     (case root t of
        None \<Rightarrow> \<lparr>root = Some (Node v None None), size_f = 1\<rparr>
      | Some r \<Rightarrow>
          (case insert_loop [([], r)] of
             Some p \<Rightarrow> \<lparr>root = update_at p (add_children v) (Some r), size_f = size_f t + 2\<rparr>
           | None \<Rightarrow> t))"

subsection \<open>remove\<close>

text \<open>
  \<^verbatim>\<open>remove\<close> scans with a queue of \<^verbatim>\<open>std::pair<Node*, Node*>\<close>: a node and its
  parent (\<open>None\<close> for the \<^verbatim>\<open>nullptr\<close> parent of the root).
\<close>

type_synonym 'a ptr_pair = "'a ptr \<times> 'a ptr option"

definition push_children_par :: "'a ptr_pair list \<Rightarrow> 'a ptr \<Rightarrow> 'a ptr_pair list" where
  "push_children_par q current =
     (let q1 = (case left (snd current) of None \<Rightarrow> q
                | Some l \<Rightarrow> q @ [((fst current @ [Left], l), Some current)])
      in (case right (snd current) of None \<Rightarrow> q1
          | Some r \<Rightarrow> q1 @ [((fst current @ [Right], r), Some current)]))"

lemma queue_weight_push_par:
  "queue_weight (map fst (push_children_par q (p, Node d l r))) =
     queue_weight (map fst q) + count_nodes l + count_nodes r"
  by (simp add: push_children_par_def queue_weight_def split: option.splits)

text \<open>
  First loop of \<^verbatim>\<open>remove\<close>: the first node in the scan whose data equals the
  value, with its parent (\<open>None\<close>: \<^verbatim>\<open>target\<close> stays \<^verbatim>\<open>nullptr\<close>).
\<close>

function find_target :: "'a \<Rightarrow> 'a ptr_pair list \<Rightarrow> 'a ptr_pair option" where
  "find_target v [] = None"
| "find_target v ((current, par) # q) =
     (if data (snd current) = v then Some (current, par)
      else find_target v (push_children_par q current))"
  by pat_completeness auto
termination
proof (relation "measure (\<lambda>(v, q). queue_weight (map fst q))")
  show "wf (measure (\<lambda>(v :: 'a, q :: 'a ptr_pair list). queue_weight (map fst q)))" by simp
next
  fix v :: 'a and current :: "'a ptr" and par :: "'a ptr option" and q :: "'a ptr_pair list"
  obtain p d l r where c: "current = (p, Node d l r)"
    by (cases current, cases "snd current") auto
  show "((v, push_children_par q current), (v, (current, par) # q))
          \<in> measure (\<lambda>(v, q). queue_weight (map fst q))"
    unfolding c by (simp add: queue_weight_push_par) (simp add: queue_weight_def)
qed

text \<open>
  Second loop of \<^verbatim>\<open>remove\<close>: runs over the whole tree and keeps the last node
  without children in \<^verbatim>\<open>rightmost\<close>, with its parent in \<^verbatim>\<open>rightmostParent\<close>.
  The accumulator is \<open>None\<close> while \<^verbatim>\<open>rightmost\<close> is \<^verbatim>\<open>nullptr\<close>.
\<close>

function rightmost_scan :: "'a ptr_pair list \<Rightarrow> 'a ptr_pair option \<Rightarrow> 'a ptr_pair option" where
  "rightmost_scan [] rightmost = rightmost"
| "rightmost_scan ((current, par) # leafQueue) rightmost =
     rightmost_scan (push_children_par leafQueue current)
       (if left (snd current) = None \<and> right (snd current) = None
        then Some (current, par) else rightmost)"
  by pat_completeness auto
termination
proof (relation "measure (\<lambda>(q, a). queue_weight (map fst q))")
  show "wf (measure (\<lambda>(q :: 'a ptr_pair list, a :: 'a ptr_pair option). queue_weight (map fst q)))"
    by simp
next
  fix current :: "'a ptr" and par :: "'a ptr option" and q :: "'a ptr_pair list"
    and rightmost :: "'a ptr_pair option"
  obtain p d l r where c: "current = (p, Node d l r)"
    by (cases current, cases "snd current") auto
  show "((push_children_par q current,
          if left (snd current) = None \<and> right (snd current) = None
          then Some (current, par) else rightmost),
         ((current, par) # q, rightmost))
          \<in> measure (\<lambda>(q, a). queue_weight (map fst q))"
    unfolding c by (simp add: queue_weight_push_par) (simp add: queue_weight_def)
qed

text \<open>\<^verbatim>\<open>p->left = p->right = nullptr\<close> and \<^verbatim>\<open>target->data = x\<close>, through a pointer.\<close>

definition drop_children :: "'a node \<Rightarrow> 'a node" where
  "drop_children n = Node (data n) None None"

definition set_data :: "'a \<Rightarrow> 'a node \<Rightarrow> 'a node" where
  "set_data x n = Node x (left n) (right n)"

definition remove_tree :: "'a \<Rightarrow> 'a FullBinaryTree \<Rightarrow> 'a FullBinaryTree" where
  "remove_tree v t =
     (case root t of
        None \<Rightarrow> t
      | Some r \<Rightarrow>
          (case find_target v [(([], r), None)] of
             None \<Rightarrow> t
           | Some (target, parent) \<Rightarrow>
               if left (snd target) = None \<and> right (snd target) = None then
                 (case parent of
                    Some par \<Rightarrow>
                      \<lparr>root = update_at (fst par) drop_children (Some r), size_f = size_f t - 2\<rparr>
                  | None \<Rightarrow> \<lparr>root = None, size_f = 0\<rparr>)
               else if left (snd target) \<noteq> None \<and> right (snd target) \<noteq> None then
                 (case rightmost_scan [(([], r), None)] None of
                    None \<Rightarrow> t
                  | Some (rightmost, rightmostParent) \<Rightarrow>
                      if fst rightmost \<noteq> fst target then
                        (let r1 = update_at (fst target) (set_data (data (snd rightmost))) (Some r)
                         in case rightmostParent of
                              Some rpar \<Rightarrow>
                                \<lparr>root = update_at (fst rpar) drop_children r1,
                                 size_f = size_f t - 2\<rparr>
                            | None \<Rightarrow> \<lparr>root = r1, size_f = size_f t\<rparr>)
                      else t)
               else t))"

subsection \<open>find, isFullBinaryTree, getSize, isEmpty, clear\<close>

function find_loop :: "'a \<Rightarrow> 'a ptr list \<Rightarrow> bool" where
  "find_loop v [] = False"
| "find_loop v (current # q) =
     (if data (snd current) = v then True else find_loop v (push_children q current))"
  by pat_completeness auto
termination
proof (relation "measure (\<lambda>(v, q). queue_weight q)")
  show "wf (measure (\<lambda>(v :: 'a, q :: 'a ptr list). queue_weight q))" by simp
next
  fix v :: 'a and current :: "'a ptr" and q :: "'a ptr list"
  obtain p d l r where c: "current = (p, Node d l r)"
    by (cases current, cases "snd current") auto
  show "((v, push_children q current), (v, current # q)) \<in> measure (\<lambda>(v, q). queue_weight q)"
    unfolding c by (simp add: queue_weight_push) (simp add: queue_weight_def)
qed

definition find_tree :: "'a \<Rightarrow> 'a FullBinaryTree \<Rightarrow> bool" where
  "find_tree v t = (case root t of None \<Rightarrow> False | Some r \<Rightarrow> find_loop v [([], r)])"

fun isFullBinaryTreeHelper :: "'a node option \<Rightarrow> bool" where
  "isFullBinaryTreeHelper None = True"
| "isFullBinaryTreeHelper (Some (Node d l r)) =
     (if (l = None \<and> r \<noteq> None) \<or> (l \<noteq> None \<and> r = None) then False
      else isFullBinaryTreeHelper l \<and> isFullBinaryTreeHelper r)"

definition isFullBinaryTree :: "'a FullBinaryTree \<Rightarrow> bool" where
  "isFullBinaryTree t = isFullBinaryTreeHelper (root t)"

definition getSize :: "'a FullBinaryTree \<Rightarrow> size_t" where
  "getSize t = size_f t"

definition isEmpty :: "'a FullBinaryTree \<Rightarrow> bool" where
  "isEmpty t = (size_f t = 0)"

definition clear :: "'a FullBinaryTree \<Rightarrow> 'a FullBinaryTree" where
  "clear t = \<lparr>root = None, size_f = 0\<rparr>"

section \<open>Serialization\<close>

subsection \<open>Text encoding\<close>

text \<open>
  An input stream is the characters not yet read and the fail state of the
  stream (\<^verbatim>\<open>!in.good()\<close>: once set, every further extraction fails and
  reads nothing). An output stream is the string written to it.
\<close>

record istream =
  buf :: string
  failbit :: bool

definition isspace :: "char \<Rightarrow> bool" where
  "isspace c = (c = CHR '' '' \<or> c = CHR 0x09 \<or> c = CHR 0x0A \<or> c = CHR 0x0B
                \<or> c = CHR 0x0C \<or> c = CHR 0x0D)"

definition isdigit :: "char \<Rightarrow> bool" where
  "isdigit c = (48 \<le> (of_char c :: nat) \<and> (of_char c :: nat) \<le> 57)"

text \<open>
  \<^verbatim>\<open>in >> token\<close> for a \<^verbatim>\<open>std::string\<close>: skip leading white space, then take
  the characters up to the next white space. It fails (and sets the fail
  state) when the stream has already failed or holds no further token.
\<close>

definition extract_token :: "istream \<Rightarrow> string option \<times> istream" where
  "extract_token s =
     (if failbit s then (None, s)
      else (let r = dropWhile isspace (buf s)
            in if r = [] then (None, \<lparr>buf = [], failbit = True\<rparr>)
               else (Some (takeWhile (\<lambda>c. \<not> isspace c) r),
                     \<lparr>buf = dropWhile (\<lambda>c. \<not> isspace c) r, failbit = False\<rparr>)))"

text \<open>Decimal digits, as \<^verbatim>\<open>out << size\<close> prints them and \<^verbatim>\<open>in >> new_size\<close> reads them.\<close>

definition decimal_value :: "string \<Rightarrow> nat" where
  "decimal_value ds = foldl (\<lambda>a c. 10 * a + ((of_char c :: nat) - 48)) 0 ds"

fun decimal :: "nat \<Rightarrow> string" where
  "decimal n = (if n < 10 then [char_of (48 + n)]
                else decimal (n div 10) @ [char_of (48 + n mod 10)])"

declare decimal.simps [simp del]

text \<open>
  \<^verbatim>\<open>in >> new_size\<close> for a \<^verbatim>\<open>size_t\<close>. The first argument is the content of the
  local variable before the extraction: \<^verbatim>\<open>new_size\<close> is declared without an
  initialiser and keeps that content when the stream has already failed or
  holds only white space. Otherwise white space is skipped and an optional
  sign followed by decimal digits is read: no digit stores 0 and fails, a
  value that does not fit stores the largest \<^verbatim>\<open>size_t\<close> and fails, and a
  leading minus negates modulo \<open>2 ^ 64\<close>, as \<^verbatim>\<open>strtoull\<close> does.
\<close>

definition extract_size :: "size_t \<Rightarrow> istream \<Rightarrow> size_t \<times> istream" where
  "extract_size new_size s =
     (if failbit s then (new_size, s)
      else (let r = dropWhile isspace (buf s)
            in if r = [] then (new_size, \<lparr>buf = [], failbit = True\<rparr>)
               else (let neg = (hd r = CHR ''-'');
                         r1 = (if hd r = CHR ''-'' \<or> hd r = CHR ''+'' then tl r else r);
                         ds = takeWhile isdigit r1;
                         r2 = dropWhile isdigit r1
                     in if ds = [] then (0, \<lparr>buf = r2, failbit = True\<rparr>)
                        else if decimal_value ds \<ge> 2 ^ 64
                          then (- 1, \<lparr>buf = r2, failbit = True\<rparr>)
                        else ((if neg then - of_nat (decimal_value ds)
                               else of_nat (decimal_value ds)),
                              \<lparr>buf = r2, failbit = False\<rparr>))))"

text \<open>
  \<^verbatim>\<open>serializeHelper\<close>: preorder, \<^verbatim>\<open>"null "\<close> for an absent child. The parameter
  \<open>show_value\<close> is \<^verbatim>\<open>operator<<\<close> of the element type \<^verbatim>\<open>T\<close>.
\<close>

fun serializeHelper :: "('a \<Rightarrow> string) \<Rightarrow> 'a node option \<Rightarrow> string" where
  "serializeHelper show_value None = ''null ''"
| "serializeHelper show_value (Some (Node d l r)) =
     show_value d @ '' '' @ serializeHelper show_value l @ serializeHelper show_value r"

definition serializeText :: "('a \<Rightarrow> string) \<Rightarrow> 'a FullBinaryTree \<Rightarrow> string" where
  "serializeText show_value t =
     decimal (unat (size_f t)) @ [CHR 0x0A] @ serializeHelper show_value (root t) @ [CHR 0x0A]"

text \<open>
  \<^verbatim>\<open>deserializeHelper\<close>. The parameter \<open>parse_value\<close> is what
  \<^verbatim>\<open>std::istringstream iss(token); T value; iss >> value;\<close> leaves in \<^verbatim>\<open>value\<close>;
  the state of \<^verbatim>\<open>iss\<close> is never looked at. The function returns the decoded
  pointer and the stream after it.
\<close>

function deserializeHelper :: "(string \<Rightarrow> 'a) \<Rightarrow> istream \<Rightarrow> 'a node option \<times> istream" where
  "deserializeHelper parse_value s =
     (case extract_token s of
        (None, s1) \<Rightarrow> (None, s1)
      | (Some token, s1) \<Rightarrow>
          if token = ''null'' then (None, s1)
          else (case deserializeHelper parse_value s1 of
                  (l, s2) \<Rightarrow>
                    (case deserializeHelper parse_value s2 of
                       (r, s3) \<Rightarrow> (Some (Node (parse_value token) l r), s3))))"
  by pat_completeness auto

definition stream_weight :: "istream \<Rightarrow> nat" where
  "stream_weight s = (if failbit s then 0 else Suc (length (buf s)))"

lemma dropWhile_nonspace_shorter:
  "dropWhile isspace b \<noteq> [] \<Longrightarrow>
     length (dropWhile (\<lambda>c. \<not> isspace c) (dropWhile isspace b)) < length b"
proof -
  assume ne: "dropWhile isspace b \<noteq> []"
  then obtain c cs where r: "dropWhile isspace b = c # cs"
    by (cases "dropWhile isspace b") auto
  then have "\<not> isspace c"
    using hd_dropWhile [of isspace b] ne by auto
  then have "length (dropWhile (\<lambda>c. \<not> isspace c) (c # cs)) \<le> length cs"
    by (simp add: length_dropWhile_le)
  also have "length cs < length (dropWhile isspace b)" by (simp add: r)
  also have "\<dots> \<le> length b" by (rule length_dropWhile_le)
  finally show ?thesis by (simp add: r)
qed

lemma extract_token_Some_weight:
  assumes "extract_token s = (Some tok, s1)"
  shows "stream_weight s1 < stream_weight s"
proof -
  from assms have nf: "\<not> failbit s"
    by (auto simp: extract_token_def split: if_splits)
  from assms nf have ne: "dropWhile isspace (buf s) \<noteq> []"
    by (auto simp: extract_token_def Let_def split: if_splits)
  from assms nf ne have "s1 = \<lparr>buf = dropWhile (\<lambda>c. \<not> isspace c) (dropWhile isspace (buf s)),
      failbit = False\<rparr>"
    by (auto simp: extract_token_def Let_def split: if_splits)
  then show ?thesis
    using dropWhile_nonspace_shorter [OF ne] nf by (simp add: stream_weight_def)
qed

lemma extract_token_None_weight:
  "extract_token s = (None, s1) \<Longrightarrow> stream_weight s1 \<le> stream_weight s"
  by (auto simp: extract_token_def stream_weight_def Let_def split: if_splits)

lemma deserializeHelper_dom_weight:
  "deserializeHelper_dom (pv, s) \<Longrightarrow> stream_weight (snd (deserializeHelper pv s)) \<le> stream_weight s"
proof (induction pv s rule: deserializeHelper.pinduct)
  case (1 pv s)
  obtain x s1 where e: "extract_token s = (x, s1)" by (cases "extract_token s")
  show ?case
  proof (cases x)
    case None
    with e 1(1) show ?thesis
      by (simp add: deserializeHelper.psimps extract_token_None_weight)
  next
    case (Some tok)
    note w1 = extract_token_Some_weight [OF e [unfolded Some]]
    show ?thesis
    proof (cases "tok = ''null''")
      case True
      with e Some 1(1) w1 show ?thesis by (simp add: deserializeHelper.psimps)
    next
      case False
      obtain l s2 where d1: "deserializeHelper pv s1 = (l, s2)" by (cases "deserializeHelper pv s1")
      obtain r s3 where d2: "deserializeHelper pv s2 = (r, s3)" by (cases "deserializeHelper pv s2")
      have "stream_weight s2 \<le> stream_weight s1"
        using 1(2) [OF e [symmetric] Some False] d1 by simp
      moreover have "stream_weight s3 \<le> stream_weight s2"
        using 1(3) [OF e [symmetric] Some False d1 [symmetric]] d2 by simp
      ultimately show ?thesis
        using e Some False d1 d2 1(1) w1 by (simp add: deserializeHelper.psimps)
    qed
  qed
qed

termination deserializeHelper
proof (relation "measure (\<lambda>(pv, s). stream_weight s)")
  show "wf (measure (\<lambda>(pv :: string \<Rightarrow> 'a, s). stream_weight s))" by simp
next
  fix pv :: "string \<Rightarrow> 'a" and s x s1 tok
  assume "(x, s1) = extract_token s" "x = Some tok"
  then show "((pv, s1), (pv, s)) \<in> measure (\<lambda>(pv, s). stream_weight s)"
    using extract_token_Some_weight [of s tok s1] by simp
next
  fix pv :: "string \<Rightarrow> 'a" and s x s1 tok l s2
  assume a: "(x, s1) = extract_token s" "x = Some tok"
    "(l, s2) = deserializeHelper pv s1" "deserializeHelper_dom (pv, s1)"
  have "stream_weight s2 \<le> stream_weight s1"
    using deserializeHelper_dom_weight [OF a(4)] a(3) [symmetric] by simp
  then show "((pv, s2), (pv, s)) \<in> measure (\<lambda>(pv, s). stream_weight s)"
    using extract_token_Some_weight [of s tok s1] a(1,2) by simp
qed

text \<open>
  \<^verbatim>\<open>deserializeText\<close>: clear, read the header into \<^verbatim>\<open>size\<close>, decode the root.
  \<open>uninit\<close> is the initial content of the local \<^verbatim>\<open>new_size\<close>.
\<close>

definition deserializeText ::
  "size_t \<Rightarrow> (string \<Rightarrow> 'a) \<Rightarrow> 'a FullBinaryTree \<Rightarrow> istream \<Rightarrow> 'a FullBinaryTree \<times> istream" where
  "deserializeText uninit parse_value t s =
     (let t0 = clear t;
          (new_size, s1) = extract_size uninit s;
          t1 = t0\<lparr>size_f := new_size\<rparr>;
          (r, s2) = deserializeHelper parse_value s1
      in (t1\<lparr>root := r\<rparr>, s2))"

subsection \<open>Binary encoding\<close>

text \<open>
  The binary functions copy object representations with \<^verbatim>\<open>out.write\<close> and
  \<^verbatim>\<open>in.read\<close>. A \<^verbatim>\<open>size_t\<close> is eight bytes, least significant first; a
  \<^verbatim>\<open>bool\<close> is one byte, 0 or 1; the element type \<^verbatim>\<open>T\<close> is \<open>sizeof_T\<close> bytes
  that \<open>encode_value\<close> writes and \<open>decode_value\<close> reads back.
\<close>

type_synonym byte = "8 word"










text \<open>
  \<^verbatim>\<open>in.read(p, n)\<close>: the next \<open>n\<close> bytes and the rest of the stream. When the
  stream holds fewer, the destination keeps indeterminate bytes and the code
  goes on to use them, which is undefined behaviour: the result is \<open>None\<close>.
\<close>

definition read_bytes :: "nat \<Rightarrow> byte list \<Rightarrow> (byte list \<times> byte list) option" where
  "read_bytes n bs = (if length bs < n then None else Some (take n bs, drop n bs))"



text \<open>
  \<^verbatim>\<open>deserializeBinaryHelper\<close>. A flag byte other than 0 or 1 is not a value of
  \<^verbatim>\<open>bool\<close>; testing it is undefined as well.
\<close>

function deserializeBinaryHelper ::
  "nat \<Rightarrow> (byte list \<Rightarrow> 'a) \<Rightarrow> byte list \<Rightarrow> ('a node option \<times> byte list) option" where
  "deserializeBinaryHelper sizeof_T decode_value s =
     (case read_bytes 1 s of
        None \<Rightarrow> None
      | Some (flag, s1) \<Rightarrow>
          if flag = [1] then Some (None, s1)
          else if flag \<noteq> [0] then None
          else (case read_bytes sizeof_T s1 of
                  None \<Rightarrow> None
                | Some (value, s2) \<Rightarrow>
                    (case deserializeBinaryHelper sizeof_T decode_value s2 of
                       None \<Rightarrow> None
                     | Some (l, s3) \<Rightarrow>
                         (case deserializeBinaryHelper sizeof_T decode_value s3 of
                            None \<Rightarrow> None
                          | Some (r, s4) \<Rightarrow> Some (Some (Node (decode_value value) l r), s4)))))"
  by pat_completeness auto

lemma read_bytes_length:
  "read_bytes n s = Some (x, s1) \<Longrightarrow> length x = n \<and> length s1 + n = length s"
  by (auto simp: read_bytes_def split: if_splits)

lemma deserializeBinaryHelper_dom_length:
  "deserializeBinaryHelper_dom (n, dv, s) \<Longrightarrow> deserializeBinaryHelper n dv s = Some (t, s') \<Longrightarrow>
     length s' < length s"
proof (induction n dv s arbitrary: t s' rule: deserializeBinaryHelper.pinduct)
  case (1 n dv s)
  from 1(4) obtain flag s1 where f: "read_bytes 1 s = Some (flag, s1)"
    by (auto simp: deserializeBinaryHelper.psimps [OF 1(1)] split: option.splits)
  note l1 = read_bytes_length [OF f]
  show ?case
  proof (cases "flag = [1]")
    case True
    with 1(4) f l1 show ?thesis
      by (simp add: deserializeBinaryHelper.psimps [OF 1(1)])
  next
    case False
    with 1(4) f have z: "flag = [0]"
      by (auto simp: deserializeBinaryHelper.psimps [OF 1(1)] split: if_splits)
    from 1(4) f False z obtain val s2 where v: "read_bytes n s1 = Some (val, s2)"
      by (auto simp: deserializeBinaryHelper.psimps [OF 1(1)] split: option.splits)
    from 1(4) f False z v obtain l s3 where dl: "deserializeBinaryHelper n dv s2 = Some (l, s3)"
      by (auto simp: deserializeBinaryHelper.psimps [OF 1(1)] split: option.splits)
    from 1(4) f False z v dl obtain r where dr: "deserializeBinaryHelper n dv s3 = Some (r, s')"
      by (auto simp: deserializeBinaryHelper.psimps [OF 1(1)] split: option.splits)
    have nz: "flag \<noteq> [1]" "\<not> flag \<noteq> [0]" using False z by auto
    have "length s3 < length s2"
      using 1(2) [OF f refl nz v refl dl] .
    moreover have "length s' < length s3"
      using 1(3) [OF f refl nz v refl dl refl dr] .
    ultimately show ?thesis
      using l1 read_bytes_length [OF v] by simp
  qed
qed

termination deserializeBinaryHelper
proof (relation "measure (\<lambda>(n, dv, s). length s)")
  show "wf (measure (\<lambda>(n :: nat, dv :: byte list \<Rightarrow> 'a, s :: byte list). length s))" by simp
next
  fix n :: nat and dv :: "byte list \<Rightarrow> 'a" and s x2 flag s1 x2a val s2 :: "byte list"
    and x2' :: "byte list \<times> byte list" and x2a' :: "byte list \<times> byte list"
  assume "read_bytes 1 s = Some x2'" "(flag, s1) = x2'" "read_bytes n s1 = Some x2a'"
    "(val, s2) = x2a'"
  then show "((n, dv, s2), (n, dv, s)) \<in> measure (\<lambda>(n, dv, s). length s)"
    using read_bytes_length [of 1 s flag s1] read_bytes_length [of n s1 val s2] by auto
next
  fix n :: nat and dv :: "byte list \<Rightarrow> 'a" and s flag s1 val s2 s3 :: "byte list"
    and x2' :: "byte list \<times> byte list" and x2a' :: "byte list \<times> byte list"
    and x2b :: "'a node option \<times> byte list" and l :: "'a node option"
  assume "read_bytes 1 s = Some x2'" "(flag, s1) = x2'" "read_bytes n s1 = Some x2a'"
    "(val, s2) = x2a'" "deserializeBinaryHelper n dv s2 = Some x2b" "(l, s3) = x2b"
    "deserializeBinaryHelper_dom (n, dv, s2)"
  then show "((n, dv, s3), (n, dv, s)) \<in> measure (\<lambda>(n, dv, s). length s)"
    using read_bytes_length [of 1 s flag s1] read_bytes_length [of n s1 val s2]
      deserializeBinaryHelper_dom_length [of n dv s2 l s3] by auto
qed


declare deserializeHelper.simps [simp del]

declare deserializeBinaryHelper.simps [simp del]

section \<open>Vocabulary of the properties\<close>

text \<open>
  The definitions of this section are not code of the repository. They name
  what the properties speak about: the nodes of a tree with their positions,
  level order, the values a tree holds, and what is asked of the element
  type for serialization.
\<close>

text \<open>A run of \<^verbatim>\<open>insert\<close> calls on a freshly constructed tree.\<close>

definition inserts :: "'a list \<Rightarrow> 'a FullBinaryTree" where
  "inserts vs = foldl (\<lambda>t v. insert_tree v t) empty_tree vs"

text \<open>A leaf is a node with zero children.\<close>

definition is_leaf :: "'a node \<Rightarrow> bool" where
  "is_leaf n = (left n = None \<and> right n = None)"

text \<open>
  All nodes reachable from a pointer, each with its position (the first
  argument is the position of the pointer itself), and the values they hold.
\<close>

fun ptrs :: "path \<Rightarrow> 'a node option \<Rightarrow> 'a ptr list" where
  "ptrs p None = []"
| "ptrs p (Some (Node d l r)) = (p, Node d l r) # ptrs (p @ [Left]) l @ ptrs (p @ [Right]) r"

fun node_values :: "'a node option \<Rightarrow> 'a list" where
  "node_values None = []"
| "node_values (Some (Node d l r)) = d # node_values l @ node_values r"

text \<open>
  The tree as a labelling of positions: the value at a position, \<open>None\<close>
  where the tree has no node.
\<close>

definition data_at :: "'a node option \<Rightarrow> path \<Rightarrow> 'a option" where
  "data_at t p = map_option data (deref t p)"

text \<open>
  Level order: all nodes at depth \<open>d\<close> before any node at depth \<open>d + 1\<close>,
  left to right within a level. \<open>path_lt\<close> is left-to-right for positions of
  the same depth: at the first step where they differ, the smaller one goes
  left.
\<close>

fun path_lt :: "path \<Rightarrow> path \<Rightarrow> bool" where
  "path_lt (a # p) (b # q) = (if a = b then path_lt p q else a = Left)"
| "path_lt p q = False"

definition level_before :: "path \<Rightarrow> path \<Rightarrow> bool" where
  "level_before p q = (length p < length q \<or> (length p = length q \<and> path_lt p q))"

text \<open>The first and the last node in level order among those satisfying \<open>P\<close>.\<close>

definition first_in_level_order :: "('a node \<Rightarrow> bool) \<Rightarrow> 'a node option \<Rightarrow> 'a ptr \<Rightarrow> bool" where
  "first_in_level_order P t x =
     (x \<in> set (ptrs [] t) \<and> P (snd x)
      \<and> (\<forall>y\<in>set (ptrs [] t). P (snd y) \<longrightarrow> y = x \<or> level_before (fst x) (fst y)))"

definition last_in_level_order :: "('a node \<Rightarrow> bool) \<Rightarrow> 'a node option \<Rightarrow> 'a ptr \<Rightarrow> bool" where
  "last_in_level_order P t x =
     (x \<in> set (ptrs [] t) \<and> P (snd x)
      \<and> (\<forall>y\<in>set (ptrs [] t). P (snd y) \<longrightarrow> y = x \<or> level_before (fst y) (fst x)))"

text \<open>
  The order in which the queue discipline of the loops visits the nodes: the
  loop body without its test, for a plain queue and for a queue of pairs.
  \<open>queue_ok\<close> is the loop invariant that makes this order level order, and
  \<open>par_ok\<close> says that the second component of a pair is the parent.
\<close>

function bfs :: "'a ptr list \<Rightarrow> 'a ptr list" where
  "bfs [] = []"
| "bfs (current # q) = current # bfs (push_children q current)"
  by pat_completeness auto
termination
proof (relation "measure queue_weight")
  show "wf (measure queue_weight)" by simp
next
  fix current :: "'a ptr" and q
  obtain p d l r where c: "current = (p, Node d l r)"
    by (cases current, cases "snd current") auto
  show "(push_children q current, current # q) \<in> measure queue_weight"
    unfolding c by (simp add: queue_weight_push) (simp add: queue_weight_def)
qed

function bfs_par :: "'a ptr_pair list \<Rightarrow> 'a ptr_pair list" where
  "bfs_par [] = []"
| "bfs_par ((current, par) # q) = (current, par) # bfs_par (push_children_par q current)"
  by pat_completeness auto
termination
proof (relation "measure (\<lambda>q. queue_weight (map fst q))")
  show "wf (measure (\<lambda>q :: 'a ptr_pair list. queue_weight (map fst q)))" by simp
next
  fix current :: "'a ptr" and par :: "'a ptr option" and q :: "'a ptr_pair list"
  obtain p d l r where c: "current = (p, Node d l r)"
    by (cases current, cases "snd current") auto
  show "(push_children_par q current, (current, par) # q)
          \<in> measure (\<lambda>q. queue_weight (map fst q))"
    unfolding c by (simp add: queue_weight_push_par) (simp add: queue_weight_def)
qed

definition queue_ok :: "'a ptr list \<Rightarrow> bool" where
  "queue_ok q = (sorted_wrt level_before (map fst q)
                  \<and> (\<forall>x\<in>set q. level_before (fst x) (fst (hd q) @ [Left])))"

definition par_ok :: "'a ptr_pair \<Rightarrow> bool" where
  "par_ok x = (case snd x of None \<Rightarrow> fst (fst x) = []
               | Some par \<Rightarrow> \<exists>a. fst (fst x) = fst par @ [a])"



text \<open>
  An element type to instantiate them with: \<^verbatim>\<open>unsigned long\<close>, printed in
  decimal by \<^verbatim>\<open>operator<<\<close>, read by the extractor above, stored as its eight
  bytes.
\<close>

definition show_size :: "size_t \<Rightarrow> string" where
  "show_size v = decimal (unat v)"

definition parse_size :: "string \<Rightarrow> size_t" where
  "parse_size token = fst (extract_size 0 \<lparr>buf = token, failbit = False\<rparr>)"

section \<open>Properties\<close>

subsection \<open>The insertion loop always finds a node without children\<close>

lemma insert_loop_finds: "q \<noteq> [] \<Longrightarrow> insert_loop q \<noteq> None"
proof (induction q rule: insert_loop.induct)
  case 1
  then show ?case by simp
next
  case (2 current q)
  show ?case
  proof (cases "left (snd current) = None \<and> right (snd current) = None")
    case True
    then show ?thesis by simp
  next
    case False
    then have "push_children q current \<noteq> []"
      by (auto simp: push_children_def Let_def split: option.splits)
    with 2 False show ?thesis by simp
  qed
qed

lemma update_at_None: "update_at p f t = None \<longleftrightarrow> t = None"
  by (induction p f t rule: update_at.induct) auto

lemma insert_tree_root: "root (insert_tree v t) \<noteq> None"
proof (cases "root t")
  case None
  then show ?thesis by (simp add: insert_tree_def)
next
  case (Some r)
  obtain p where p: "insert_loop [([], r)] = Some p"
    using insert_loop_finds [of "[([], r)]"] by auto
  show ?thesis
    using Some p by (simp add: insert_tree_def update_at_None)
qed

lemma insert_tree_size:
  "size_f (insert_tree v t) = (if root t = None then 1 else size_f t + 2)"
proof (cases "root t")
  case None
  then show ?thesis by (simp add: insert_tree_def)
next
  case (Some r)
  obtain p where p: "insert_loop [([], r)] = Some p"
    using insert_loop_finds [of "[([], r)]"] by auto
  show ?thesis using Some p by (simp add: insert_tree_def)
qed

lemma inserts_snoc: "inserts (vs @ [v]) = insert_tree v (inserts vs)"
  by (simp add: inserts_def)

lemma inserts_root: "root (inserts vs) = None \<longleftrightarrow> vs = []"
  by (cases vs rule: rev_cases) (simp_all add: inserts_snoc insert_tree_root, simp add: inserts_def empty_tree_def)

lemma inserts_size_succ: "vs \<noteq> [] \<Longrightarrow> size_f (inserts vs) + 1 = 2 * of_nat (length vs)"
proof (induction vs rule: rev_induct)
  case Nil
  then show ?case by simp
next
  case (snoc v vs)
  show ?case
  proof (cases "vs = []")
    case True
    then show ?thesis
      by (simp add: inserts_def insert_tree_def empty_tree_def)
  next
    case False
    then have "size_f (inserts (vs @ [v])) + 1 = (size_f (inserts vs) + 1) + 2"
      by (simp add: inserts_snoc insert_tree_size inserts_root)
    also have "\<dots> = 2 * of_nat (length vs) + 2"
      using snoc False by simp
    finally show ?thesis by simp
  qed
qed

lemma inserts_size: "size_f (inserts vs) = (if vs = [] then 0 else of_nat (1 + 2 * (length vs - 1)))"
proof (cases "vs = []")
  case True
  then show ?thesis by (simp add: inserts_def empty_tree_def)
next
  case False
  define m where "m = 1 + 2 * (length vs - 1)"
  from False have "m + 1 = 2 * length vs"
    by (cases vs) (auto simp: m_def)
  then have "(of_nat (m + 1) :: size_t) = of_nat (2 * length vs)"
    by simp
  then have "(of_nat m :: size_t) + 1 = 2 * of_nat (length vs)"
    by (simp add: add.commute)
  with inserts_size_succ [OF False] have "size_f (inserts vs) + 1 = of_nat m + 1"
    by simp
  then have "size_f (inserts vs) = of_nat m"
    by (rule add_right_imp_eq)
  with False show ?thesis by (simp only: m_def if_False)
qed

lemma inserts_size_unat:
  assumes "length vs \<le> 2 ^ 63"
  shows "unat (size_f (inserts vs)) = (if vs = [] then 0 else 1 + 2 * (length vs - 1))"
proof (cases "vs = []")
  case True
  then show ?thesis by (simp add: inserts_size)
next
  case False
  define m where "m = 1 + 2 * (length vs - 1)"
  from False have "m < 2 * length vs" by (cases vs) (auto simp: m_def)
  also have "\<dots> \<le> 2 * 2 ^ 63" using assms by simp
  finally have "m < 2 ^ 64" by simp
  then have "unat (of_nat m :: size_t) = m"
    by (simp add: unat_of_nat take_bit_nat_eq_self)
  moreover have "size_f (inserts vs) = of_nat m"
    using False by (simp only: inserts_size m_def if_False)
  ultimately show ?thesis using False by (simp only: m_def if_False)
qed

subsection \<open>Level order\<close>

lemma insert_loop_bfs:
  "insert_loop q = map_option fst (List.find (\<lambda>c. is_leaf (snd c)) (bfs q))"
  by (induction q rule: insert_loop.induct) (auto simp: is_leaf_def)

lemma find_loop_bfs: "find_loop v q = (\<exists>c\<in>set (bfs q). data (snd c) = v)"
  by (induction v q rule: find_loop.induct) auto

lemma push_children_par_fst:
  "map fst (push_children_par q c) = push_children (map fst q) c"
  by (simp add: push_children_par_def push_children_def Let_def split: option.splits)

lemma bfs_par_fst: "map fst (bfs_par q) = bfs (map fst q)"
  by (induction q rule: bfs_par.induct) (auto simp: push_children_par_fst)

lemma find_target_bfs:
  "find_target v q = List.find (\<lambda>x. data (snd (fst x)) = v) (bfs_par q)"
  by (induction v q rule: find_target.induct) auto

lemma rightmost_scan_bfs:
  "rightmost_scan q acc
     = foldl (\<lambda>a x. if is_leaf (snd (fst x)) then Some x else a) acc (bfs_par q)"
  by (induction q acc rule: rightmost_scan.induct) (auto simp: is_leaf_def)

lemma foldl_last_filter:
  "foldl (\<lambda>a x. if P x then Some x else a) acc xs
     = (if filter P xs = [] then acc else Some (last (filter P xs)))"
  by (induction xs arbitrary: acc) auto

lemma push_children_set:
  "(\<Union>c\<in>set (push_children q (p, Node d l r)). set (ptrs (fst c) (Some (snd c))))
     = (\<Union>c\<in>set q. set (ptrs (fst c) (Some (snd c)))) \<union> set (ptrs (p @ [Left]) l)
         \<union> set (ptrs (p @ [Right]) r)"
  by (cases l; cases r) (auto simp: push_children_def Let_def)

lemma ptrs_Some: "set (ptrs p (Some n)) = insert (p, n) (set (ptrs (p @ [Left]) (left n)) \<union> set (ptrs (p @ [Right]) (right n)))"
  by (cases n) auto

lemma set_bfs: "set (bfs q) = (\<Union>c\<in>set q. set (ptrs (fst c) (Some (snd c))))"
proof (induction q rule: bfs.induct)
  case 1
  then show ?case by simp
next
  case (2 current q)
  obtain p d l r where c: "current = (p, Node d l r)"
    by (cases current, cases "snd current") auto
  show ?case
    using 2 unfolding c by (simp add: push_children_set) blast
qed

lemma path_lt_irrefl: "\<not> path_lt p p"
  by (induction p) auto

lemma path_lt_trans: "path_lt p q \<Longrightarrow> path_lt q r \<Longrightarrow> path_lt p r"
proof (induction p q arbitrary: r rule: path_lt.induct)
  case (1 a p b q)
  then show ?case by (cases r) (auto split: if_splits)
qed auto

lemma path_lt_append:
  "path_lt p q \<Longrightarrow> length p = length q \<Longrightarrow> path_lt (p @ a) (q @ b)"
  by (induction p q rule: path_lt.induct) (auto split: if_splits)

lemma path_lt_snoc_Left_Right: "path_lt (p @ [Left]) (p @ [Right])"
  by (induction p) auto

lemma level_before_irrefl: "\<not> level_before p p"
  by (simp add: level_before_def path_lt_irrefl)

lemma level_before_trans: "level_before p q \<Longrightarrow> level_before q r \<Longrightarrow> level_before p r"
  by (auto simp: level_before_def dest: path_lt_trans)

lemma level_before_asym: "level_before p q \<Longrightarrow> \<not> level_before q p"
  using level_before_trans level_before_irrefl by blast

lemma level_before_length: "level_before p q \<Longrightarrow> length p \<le> length q"
  by (auto simp: level_before_def)

lemma level_before_extend: "level_before p q \<Longrightarrow> level_before p (q @ s)"
  by (cases s) (auto simp: level_before_def)

lemma level_before_snoc: "level_before p q \<Longrightarrow> level_before (p @ [a]) (q @ [b])"
  by (auto simp: level_before_def path_lt_append)

lemma level_before_child: "level_before p (p @ a # s)"
  by (simp add: level_before_def)

lemma level_before_siblings: "level_before (p @ [Left]) (p @ [Right])"
  by (simp add: level_before_def path_lt_snoc_Left_Right)

text \<open>Every pointer met by the scan lies below a pointer of the queue.\<close>

lemma ptrs_extends: "(q, m) \<in> set (ptrs p t) \<Longrightarrow> \<exists>s. q = p @ s"
proof (induction p t rule: ptrs.induct)
  case (1 p)
  then show ?case by simp
next
  case (2 p d l r)
  then show ?case by fastforce
qed

lemma push_children_paths:
  "map fst (push_children q (p, Node d l r))
     = map fst q @ (if l = None then [] else [p @ [Left]]) @ (if r = None then [] else [p @ [Right]])"
  by (cases l; cases r) (simp_all add: push_children_def Let_def)

lemma queue_ok_push:
  assumes "queue_ok ((p, Node d l r) # q)"
  shows "queue_ok (push_children q (p, Node d l r))"
proof -
  let ?ks = "(if l = None then [] else [p @ [Left]]) @ (if r = None then [] else [p @ [Right]])"
  let ?q' = "push_children q (p, Node d l r)"
  have paths: "map fst ?q' = map fst q @ ?ks" by (rule push_children_paths)
  from assms have sq: "sorted_wrt level_before (map fst q)"
    and pq: "\<forall>x\<in>set q. level_before p (fst x)"
    and hq: "\<forall>x\<in>set q. level_before (fst x) (p @ [Left])"
    by (auto simp: queue_ok_def)
  have ks: "\<forall>k\<in>set ?ks. k = p @ [Left] \<or> k = p @ [Right]" by auto
  have sks: "sorted_wrt level_before ?ks" by (simp add: level_before_siblings)
  have qk: "\<forall>x\<in>set q. \<forall>k\<in>set ?ks. level_before (fst x) k"
    using hq level_before_trans [OF _ level_before_siblings] by auto
  have sorted: "sorted_wrt level_before (map fst ?q')"
    unfolding paths using sq sks qk by (simp add: sorted_wrt_append)
  have head: "\<forall>y\<in>set (map fst ?q'). level_before y (hd (map fst ?q') @ [Left])"
  proof (cases q)
    case Nil
    then have "map fst ?q' = ?ks" using paths by simp
    moreover have "\<forall>y\<in>set ?ks. level_before y (hd ?ks @ [Left])"
      by (auto simp: level_before_def)
    ultimately show ?thesis by simp
  next
    case (Cons h q'')
    then have hd: "hd (map fst ?q') = fst h" using paths by simp
    have ph: "level_before p (fst h)" using pq Cons by simp
    have a: "\<forall>k\<in>set ?ks. level_before k (fst h @ [Left])"
      using level_before_snoc [OF ph] by auto
    have "level_before (p @ [Left]) (fst h @ [Left])" by (rule level_before_snoc [OF ph])
    then have b: "\<forall>x\<in>set q. level_before (fst x) (fst h @ [Left])"
      using hq level_before_trans by blast
    have "\<forall>y\<in>set (map fst q @ ?ks). level_before y (fst h @ [Left])"
      using a b by auto
    then show ?thesis unfolding hd unfolding paths .
  qed
  have "hd (map fst ?q') = fst (hd ?q')" if "?q' \<noteq> []"
    using that by (simp add: hd_map)
  with head sorted show ?thesis
    by (cases "?q' = []") (auto simp: queue_ok_def)
qed

lemma bfs_below_queue:
  assumes "y \<in> set (bfs q)"
  shows "\<exists>x\<in>set q. \<exists>s. fst y = fst x @ s"
proof -
  from assms obtain x where x: "x \<in> set q" and y: "y \<in> set (ptrs (fst x) (Some (snd x)))"
    unfolding set_bfs by blast
  from y have "\<exists>s. fst y = fst x @ s"
    using ptrs_extends [of "fst y" "snd y" "fst x" "Some (snd x)"] by simp
  with x show ?thesis by blast
qed

lemma bfs_sorted: "queue_ok q \<Longrightarrow> sorted_wrt level_before (map fst (bfs q))"
proof (induction q rule: bfs.induct)
  case 1
  then show ?case by simp
next
  case (2 current q)
  obtain p d l r where c: "current = (p, Node d l r)"
    by (cases current, cases "snd current") auto
  have ok': "queue_ok (push_children q current)"
    using 2(2) unfolding c by (rule queue_ok_push)
  have first: "level_before p (fst y)" if y: "y \<in> set (bfs (push_children q current))" for y
  proof -
    from bfs_below_queue [OF y] obtain x s where x: "x \<in> set (push_children q current)"
      and ys: "fst y = fst x @ s" by blast
    from x have "fst x \<in> set (map fst (push_children q (p, Node d l r)))"
      unfolding c by simp
    then have "fst x \<in> set (map fst q) \<or> fst x = p @ [Left] \<or> fst x = p @ [Right]"
      unfolding push_children_paths by (auto split: if_splits)
    moreover have "\<forall>x\<in>set q. level_before p (fst x)"
      using 2(2) unfolding c by (auto simp: queue_ok_def)
    ultimately have "level_before p (fst x)"
      by (auto simp: level_before_child)
    then show ?thesis unfolding ys by (rule level_before_extend)
  qed
  show ?case
    using 2(1) [OF ok'] first unfolding c by auto
qed

lemma queue_ok_root: "queue_ok [([], r)]"
  by (simp add: queue_ok_def level_before_def)

lemma node_values_ptrs: "set (node_values t) = data ` snd ` set (ptrs p t)"
  by (induction t arbitrary: p rule: node_values.induct) (auto simp: image_Un)

lemma deref_Nil [simp]: "deref t [] = t"
  by (cases t) auto

lemma child_leaf [simp]: "child a (Node d None None) = None"
  by (cases a) auto

lemma ptrs_deref: "(p @ s, m) \<in> set (ptrs p t) \<longleftrightarrow> deref t s = Some m"
proof (induction s arbitrary: p t)
  case Nil
  show ?case
  proof (cases t)
    case None
    then show ?thesis by simp
  next
    case (Some n)
    have "(p, m) \<notin> set (ptrs (p @ [a]) u)" for a u
      using ptrs_extends [of p m "p @ [a]" u] by auto
    then show ?thesis using Some by (cases n) auto
  qed
next
  case (Cons a s)
  show ?case
  proof (cases t)
    case None
    then show ?thesis by simp
  next
    case (Some n)
    obtain d l r where n: "n = Node d l r" by (cases n)
    have other: "(p @ a # s, m) \<notin> set (ptrs (p @ [b]) u)" if "b \<noteq> a" for b u
      using ptrs_extends [of "p @ a # s" m "p @ [b]" u] that by auto
    have same: "(p @ a # s, m) \<in> set (ptrs (p @ [a]) u) \<longleftrightarrow> deref u s = Some m" for u
      using Cons [of "p @ [a]" u] by simp
    show ?thesis
    proof (cases a)
      case Left
      then show ?thesis
        using Some n same [of l] other [of Right l] other [of Right r] by auto
    next
      case Right
      then show ?thesis
        using Some n same [of r] other [of Left l] other [of Left r] by auto
    qed
  qed
qed

lemma ptrs_root_deref: "(q, m) \<in> set (ptrs [] t) \<longleftrightarrow> deref t q = Some m"
  using ptrs_deref [of "[]" q m t] by simp

text \<open>The labelling determines the tree.\<close>

lemma data_at_inject: "data_at t = data_at u \<Longrightarrow> t = u"
proof (induction t arbitrary: u rule: count_nodes.induct)
  case 1
  from fun_cong [OF 1, of "[]"] show ?case
    by (cases u) (simp_all add: data_at_def)
next
  case (2 d l r)
  from fun_cong [OF 2(3), of "[]"] obtain d' l' r' where u: "u = Some (Node d' l' r')" and d: "d' = d"
    by (cases u; cases "the u") (auto simp: data_at_def)
  have "data_at l q = data_at l' q" for q
    using fun_cong [OF 2(3), of "Left # q"] by (simp add: u data_at_def)
  then have "l = l'" by (intro 2(1) ext)
  moreover have "data_at r q = data_at r' q" for q
    using fun_cong [OF 2(3), of "Right # q"] by (simp add: u data_at_def)
  then have "r = r'" by (intro 2(2) ext)
  ultimately show ?case by (simp add: u d)
qed

lemma find_sorted_first:
  "sorted_wrt R (map f xs) \<Longrightarrow> List.find P xs = Some x \<Longrightarrow>
     x \<in> set xs \<and> P x \<and> (\<forall>y\<in>set xs. P y \<longrightarrow> y = x \<or> R (f x) (f y))"
  by (induction xs) (auto split: if_splits)

lemma set_bfs_root: "set (bfs [([], r)]) = set (ptrs [] (Some r))"
  by (simp only: set_bfs) simp

lemma some_leaf: "t \<noteq> None \<Longrightarrow> \<exists>x\<in>set (ptrs p t). is_leaf (snd x)"
proof (induction p t rule: ptrs.induct)
  case (1 p)
  then show ?case by simp
next
  case (2 p d l r)
  show ?case
  proof (cases "l = None \<and> r = None")
    case True
    then show ?thesis by (simp add: is_leaf_def)
  next
    case False
    then show ?thesis using 2 by auto
  qed
qed

lemma insert_loop_first:
  assumes "insert_loop [([], r)] = Some p"
  shows "\<exists>n. first_in_level_order is_leaf (Some r) (p, n)"
proof -
  from assms obtain x where f: "List.find (\<lambda>c. is_leaf (snd c)) (bfs [([], r)]) = Some x"
    and p: "p = fst x"
    by (auto simp: insert_loop_bfs)
  have "first_in_level_order is_leaf (Some r) x"
    using find_sorted_first [OF bfs_sorted [OF queue_ok_root] f]
    unfolding first_in_level_order_def set_bfs_root by simp
  then show ?thesis using p by (cases x) auto
qed

lemma data_at_add_children:
  "deref t p = Some n \<Longrightarrow> is_leaf n \<Longrightarrow>
     data_at (update_at p (add_children v) t) q
       = ((data_at t)(p @ [Left] \<mapsto> v, p @ [Right] \<mapsto> v)) q"
proof (induction p arbitrary: t q)
  case Nil
  then show ?case
    by (cases n; cases q; cases "hd q"; cases "tl q")
       (auto simp: data_at_def add_children_def is_leaf_def)
next
  case (Cons a p)
  from Cons.prems obtain d l r where t: "t = Some (Node d l r)"
    by (cases t; cases "the t") auto
  show ?case
  proof (cases q)
    case Nil
    then show ?thesis using t by (cases a) (auto simp: data_at_def)
  next
    case (Cons b q')
    show ?thesis
      using Cons.IH [of "child a (Node d l r)" q'] Cons.prems t Cons
      by (cases a; cases b) (auto simp: data_at_def)
  qed
qed

lemma count_add_children:
  "deref t p = Some n \<Longrightarrow> is_leaf n \<Longrightarrow>
     count_nodes (update_at p (add_children v) t) = count_nodes t + 2"
proof (induction p arbitrary: t)
  case Nil
  then show ?case by (cases n) (auto simp: add_children_def is_leaf_def)
next
  case (Cons a p)
  from Cons.prems obtain d l r where t: "t = Some (Node d l r)"
    by (cases t; cases "the t") auto
  show ?case
    using Cons.IH [of "child a (Node d l r)"] Cons.prems t by (cases a) auto
qed

lemma set_bfs_par_root: "fst ` set (bfs_par [(([], r), None)]) = set (ptrs [] (Some r))"
proof -
  have "fst ` set (bfs_par [(([], r), None)]) = set (map fst (bfs_par [(([], r), None)]))"
    by simp
  also have "\<dots> = set (bfs [([], r)])"
    by (simp only: bfs_par_fst) simp
  finally show ?thesis by (simp only: set_bfs_root)
qed

lemma absent_not_scanned:
  assumes "v \<notin> set (node_values (Some r))"
  shows "find_target v [(([], r), None)] = None" and "\<not> find_loop v [([], r)]"
proof -
  have nv: "data (snd c) \<noteq> v" if "c \<in> set (ptrs [] (Some r))" for c
    using assms that unfolding node_values_ptrs [of "Some r" "[]"] by auto
  define B where "B = bfs_par [(([], r), None)]"
  have "data (snd (fst x)) \<noteq> v" if "x \<in> set B" for x
    using nv [of "fst x"] that set_bfs_par_root [of r] unfolding B_def by blast
  then have "List.find (\<lambda>x. data (snd (fst x)) = v) B = None"
    by (fastforce simp: find_None_iff)
  then show "find_target v [(([], r), None)] = None"
    by (simp only: find_target_bfs B_def)
  show "\<not> find_loop v [([], r)]"
    unfolding find_loop_bfs set_bfs_root using nv by blast
qed

subsection \<open>Streams and codecs\<close>

lemma isspace_not_digit: "isspace c \<Longrightarrow> \<not> isdigit c"
  by (auto simp: isspace_def isdigit_def)

lemma isdigit_not_sign: "isdigit c \<Longrightarrow> c \<noteq> CHR ''-'' \<and> c \<noteq> CHR ''+''"
  by (auto simp: isdigit_def)

lemma isdigit_not_space: "isdigit c \<Longrightarrow> \<not> isspace c"
  using isspace_not_digit by blast

lemma extract_size_digits:
  assumes nf: "\<not> failbit s"
    and b: "buf s = ws @ ds @ rest"
    and ws: "\<forall>c\<in>set ws. isspace c"
    and ne: "ds \<noteq> []"
    and ds: "\<forall>c\<in>set ds. isdigit c"
    and rest: "rest = [] \<or> \<not> isdigit (hd rest)"
    and small: "decimal_value ds < 2 ^ 64"
  shows "extract_size u s = (of_nat (decimal_value ds), \<lparr>buf = rest, failbit = False\<rparr>)"
proof -
  from ne obtain c cs where dcs: "ds = c # cs" by (cases ds) auto
  have c: "isdigit c" using ds dcs by simp
  have r: "dropWhile isspace (buf s) = ds @ rest"
    unfolding b using ws c dcs by (simp add: dropWhile_append2 isdigit_not_space)
  have hd: "hd (ds @ rest) = c" by (simp add: dcs)
  have tw: "takeWhile isdigit (ds @ rest) = ds"
    using ds rest by (cases rest) (simp_all add: takeWhile_append2)
  have dw: "dropWhile isdigit (ds @ rest) = rest"
    using ds rest by (cases rest) (simp_all add: dropWhile_append2)
  have nonempty: "ds @ rest \<noteq> []" using ne by simp
  show ?thesis
    unfolding extract_size_def Let_def r hd
    using nf isdigit_not_sign [OF c] nonempty tw dw ne small
    by (simp del: dropWhile_eq_Nil_conv takeWhile_eq_Nil_iff)
qed

lemma extract_token_shape:
  assumes "extract_token s = (Some tok, s')"
  shows "\<not> failbit s \<and> tok \<noteq> [] \<and> (\<forall>c\<in>set tok. \<not> isspace c)
         \<and> (\<exists>ws rest. buf s = ws @ tok @ rest \<and> (\<forall>c\<in>set ws. isspace c)
               \<and> (rest = [] \<or> isspace (hd rest))
               \<and> s' = \<lparr>buf = rest, failbit = False\<rparr>)"
proof -
  let ?r = "dropWhile isspace (buf s)"
  from assms have nf: "\<not> failbit s"
    by (auto simp: extract_token_def split: if_splits)
  from assms nf have ne: "?r \<noteq> []"
    by (auto simp: extract_token_def Let_def split: if_splits)
  from assms nf ne have tok: "tok = takeWhile (\<lambda>c. \<not> isspace c) ?r"
    and s': "s' = \<lparr>buf = dropWhile (\<lambda>c. \<not> isspace c) ?r, failbit = False\<rparr>"
    by (auto simp: extract_token_def Let_def split: if_splits)
  have "\<not> isspace (hd ?r)" using hd_dropWhile [OF ne] .
  then have tne: "tok \<noteq> []" unfolding tok using ne by (cases ?r) auto
  have tns: "\<forall>c\<in>set tok. \<not> isspace c"
    unfolding tok by (auto dest: set_takeWhileD)
  let ?rest = "dropWhile (\<lambda>c. \<not> isspace c) ?r"
  have "buf s = takeWhile isspace (buf s) @ tok @ ?rest"
    unfolding tok by simp
  moreover have "\<forall>c\<in>set (takeWhile isspace (buf s)). isspace c"
    by (auto dest: set_takeWhileD)
  moreover have "?rest = [] \<or> isspace (hd ?rest)"
    using hd_dropWhile [of "\<lambda>c. \<not> isspace c" ?r] by auto
  ultimately show ?thesis using nf tne tns s' by blast
qed













subsection \<open>Removing an inner node\<close>

lemma par_ok_push:
  "\<forall>x\<in>set q. par_ok x \<Longrightarrow> \<forall>x\<in>set (push_children_par q c). par_ok x"
  by (auto simp: push_children_par_def Let_def par_ok_def split: option.splits)

lemma bfs_par_ok: "\<forall>x\<in>set q. par_ok x \<Longrightarrow> \<forall>x\<in>set (bfs_par q). par_ok x"
proof (induction q rule: bfs_par.induct)
  case 1
  then show ?case by simp
next
  case (2 current par q)
  have "\<forall>x\<in>set (push_children_par q current). par_ok x"
    using 2(2) by (intro par_ok_push) simp
  with 2 show ?case by simp
qed

lemma last_filter_sorted:
  "sorted_wrt R (map f xs) \<Longrightarrow> filter P xs \<noteq> [] \<Longrightarrow>
     last (filter P xs) \<in> set xs \<and> P (last (filter P xs))
     \<and> (\<forall>y\<in>set xs. P y \<longrightarrow> y = last (filter P xs) \<or> R (f y) (f (last (filter P xs))))"
proof (induction xs)
  case Nil
  then show ?case by simp
next
  case (Cons x xs)
  show ?case
  proof (cases "filter P xs = []")
    case True
    with Cons.prems have px: "P x" by (auto split: if_splits)
    from True have "\<forall>y\<in>set xs. \<not> P y" by (simp add: filter_empty_conv)
    with px True show ?thesis by auto
  next
    case False
    from Cons.prems(1) have s: "sorted_wrt R (map f xs)" and b: "\<forall>y\<in>set xs. R (f x) (f y)"
      by auto
    note ih = Cons.IH [OF s False]
    have l: "last (filter P (x # xs)) = last (filter P xs)"
      using False by simp
    show ?thesis unfolding l using ih b by auto
  qed
qed

lemma full_children:
  "isFullBinaryTreeHelper t \<Longrightarrow> (p, n) \<in> set (ptrs q t) \<Longrightarrow> left n = None \<longleftrightarrow> right n = None"
proof (induction q t rule: ptrs.induct)
  case (1 q)
  then show ?case by simp
next
  case (2 q d l r)
  from 2(3) have fl: "isFullBinaryTreeHelper l" and fr: "isFullBinaryTreeHelper r"
    and here: "l = None \<longleftrightarrow> r = None"
    by (auto split: if_splits)
  from 2(4) consider "(p, n) = (q, Node d l r)" | "(p, n) \<in> set (ptrs (q @ [Left]) l)"
    | "(p, n) \<in> set (ptrs (q @ [Right]) r)" by auto
  then show ?case
  proof cases
    case 1
    with here show ?thesis by auto
  next
    case 2
    then show ?thesis using "2.IH"(1) [OF fl] by simp
  next
    case 3
    then show ?thesis using "2.IH"(2) [OF fr] by simp
  qed
qed

lemma deref_append: "deref t (p @ s) = deref (deref t p) s"
proof (induction p arbitrary: t)
  case Nil
  then show ?case by simp
next
  case (Cons a p)
  then show ?case by (cases t) auto
qed

lemma leaf_below: "deref t p = Some n \<Longrightarrow> \<exists>s m. deref t (p @ s) = Some m \<and> is_leaf m"
proof -
  assume d: "deref t p = Some n"
  from some_leaf [of "Some n" "[]"] obtain x where x: "x \<in> set (ptrs [] (Some n))"
    and l: "is_leaf (snd x)" by auto
  from x have "deref (Some n) (fst x) = Some (snd x)"
    using ptrs_root_deref [of "fst x" "snd x" "Some n"] by simp
  then have "deref t (p @ fst x) = Some (snd x)"
    by (simp add: deref_append d)
  with l show ?thesis by blast
qed

lemma deref_prefix: "deref t (p @ s) = Some m \<Longrightarrow> \<exists>n. deref t p = Some n"
  by (cases "deref t p") (auto simp: deref_append)

lemma count_set_data: "count_nodes (update_at p (set_data x) t) = count_nodes t"
proof (induction p arbitrary: t)
  case Nil
  show ?case
  proof (cases t)
    case (Some n)
    then show ?thesis by (cases n) (simp add: set_data_def)
  qed simp
next
  case (Cons a p)
  show ?case
  proof (cases t)
    case (Some n)
    then show ?thesis using Cons by (cases n; cases a) auto
  qed simp
qed

lemma count_deref_set_data:
  "count_nodes (deref (update_at p (set_data x) t) q) = count_nodes (deref t q)"
proof (induction q arbitrary: p t)
  case Nil
  then show ?case by (simp add: count_set_data)
next
  case (Cons b q)
  show ?case
  proof (cases t)
    case None
    then show ?thesis by simp
  next
    case (Some n)
    obtain d l r where n: "n = Node d l r" by (cases n)
    show ?thesis
    proof (cases p)
      case Nil
      then show ?thesis using Some n by (cases b) (simp_all add: set_data_def)
    next
      case (Cons a p')
      then show ?thesis using Some n Cons.IH [of p'] by (cases a; cases b) simp_all
    qed
  qed
qed

lemma count_drop_children:
  "count_nodes (deref t (p @ [Left])) = 1 \<Longrightarrow> count_nodes (deref t (p @ [Right])) = 1 \<Longrightarrow>
     count_nodes (update_at p drop_children t) + 2 = count_nodes t"
proof (induction p arbitrary: t)
  case Nil
  then obtain d l r where t: "t = Some (Node d l r)"
    by (cases t; cases "the t") auto
  with Nil show ?case by (simp add: drop_children_def)
next
  case (Cons a p)
  then obtain d l r where t: "t = Some (Node d l r)"
    by (cases t; cases "the t") auto
  with Cons.prems Cons.IH [of "child a (Node d l r)"] show ?case
    by (cases a) auto
qed

lemma data_at_set_data:
  "data_at (update_at p (set_data x) t) q
     = (if q = p \<and> data_at t p \<noteq> None then Some x else data_at t q)"
proof (induction p arbitrary: t q)
  case Nil
  show ?case
  proof (cases t)
    case (Some n)
    then show ?thesis by (cases n; cases q; cases "hd q") (auto simp: data_at_def set_data_def)
  qed (simp add: data_at_def)
next
  case (Cons a p)
  show ?case
  proof (cases t)
    case None
    then show ?thesis by (simp add: data_at_def)
  next
    case (Some n)
    obtain d l r where n: "n = Node d l r" by (cases n)
    show ?thesis
    proof (cases q)
      case Nil
      then show ?thesis using Some n by (cases a) (auto simp: data_at_def)
    next
      case (Cons b q')
      then show ?thesis
        using Some n Cons.IH [of "child a (Node d l r)" q']
        by (cases a; cases b) (auto simp: data_at_def)
    qed
  qed
qed

lemma data_at_drop_children:
  "data_at (update_at p drop_children t) q
     = (if \<exists>a s. q = p @ a # s then None else data_at t q)"
proof (induction p arbitrary: t q)
  case Nil
  show ?case
  proof (cases t)
    case (Some n)
    then show ?thesis by (cases n; cases q) (auto simp: data_at_def drop_children_def)
  qed (simp add: data_at_def)
next
  case (Cons a p)
  show ?case
  proof (cases t)
    case None
    then show ?thesis by (simp add: data_at_def)
  next
    case (Some n)
    obtain d l r where n: "n = Node d l r" by (cases n)
    show ?thesis
    proof (cases q)
      case Nil
      then show ?thesis using Some n by (cases a) (auto simp: data_at_def)
    next
      case (Cons b q')
      then show ?thesis
        using Some n Cons.IH [of "child a (Node d l r)" q']
        by (cases a; cases b) (auto simp: data_at_def)
    qed
  qed
qed

lemma bfs_par_root_sorted:
  "sorted_wrt level_before (map (\<lambda>x. fst (fst x)) (bfs_par [(([], r), None)]))"
proof -
  have "map (\<lambda>x. fst (fst x)) (bfs_par [(([], r), None)])
          = map fst (map fst (bfs_par [(([], r), None)]))"
    by simp
  also have "\<dots> = map fst (bfs [([], r)])"
    by (simp only: bfs_par_fst) simp
  finally show ?thesis
    using bfs_sorted [OF queue_ok_root, of r] by simp
qed

lemma ptrs_functional:
  "(p, n) \<in> set (ptrs [] t) \<Longrightarrow> (p, m) \<in> set (ptrs [] t) \<Longrightarrow> n = m"
  by (simp add: ptrs_root_deref)

lemma find_target_first:
  assumes first: "first_in_level_order (\<lambda>n. data n = v) (Some r) (tp, tn)"
  shows "\<exists>par. find_target v [(([], r), None)] = Some ((tp, tn), par)"
proof -
  define B where "B = bfs_par [(([], r), None)]"
  let ?P = "\<lambda>x :: 'a ptr_pair. data (snd (fst x)) = v"
  have setB: "fst ` set B = set (ptrs [] (Some r))"
    unfolding B_def by (rule set_bfs_par_root)
  have sorted: "sorted_wrt level_before (map (\<lambda>x. fst (fst x)) B)"
    unfolding B_def by (rule bfs_par_root_sorted)
  from first have mem: "(tp, tn) \<in> set (ptrs [] (Some r))" and dv: "data tn = v"
    and least: "\<forall>y\<in>set (ptrs [] (Some r)). data (snd y) = v \<longrightarrow>
                  y = (tp, tn) \<or> level_before tp (fst y)"
    by (simp_all add: first_in_level_order_def)
  have inB: "fst x \<in> set (ptrs [] (Some r))" if "x \<in> set B" for x
    using that unfolding setB [symmetric] by (rule imageI)
  from mem obtain y where y: "y \<in> set B" and fy: "fst y = (tp, tn)"
    unfolding setB [symmetric] by (auto elim: imageE)
  have "?P y" using fy dv by simp
  with y have ex: "\<exists>x. x \<in> set B \<and> ?P x" by blast
  have "List.find ?P B \<noteq> None"
  proof
    assume "List.find ?P B = None"
    then have "\<not> (\<exists>x. x \<in> set B \<and> ?P x)" by (rule find_None_iff [THEN iffD1])
    with ex show False by blast
  qed
  then obtain x where f: "List.find ?P B = Some x" by blast
  note ff = find_sorted_first [OF sorted f]
  from ff have xB: "x \<in> set B" and px: "?P x"
    and xfirst: "\<forall>y\<in>set B. ?P y \<longrightarrow> y = x \<or> level_before (fst (fst x)) (fst (fst y))"
    by simp_all
  from xB have xm: "fst x \<in> set (ptrs [] (Some r))" by (rule inB)
  have "fst x = (tp, tn)"
  proof (rule ccontr)
    assume ne: "fst x \<noteq> (tp, tn)"
    from least [rule_format, OF xm] px ne have a: "level_before tp (fst (fst x))" by simp
    from ne fy have "y \<noteq> x" by auto
    with xfirst [rule_format, OF y] \<open>?P y\<close> have "level_before (fst (fst x)) (fst (fst y))"
      by simp
    then have "level_before (fst (fst x)) tp" by (simp add: fy)
    with a show False using level_before_asym by blast
  qed
  then have "x = ((tp, tn), snd x)" by (cases x) simp
  with f show ?thesis
    unfolding find_target_bfs B_def [symmetric] by metis
qed

lemma rightmost_scan_last:
  "\<exists>z. rightmost_scan [(([], r), None)] None = Some z \<and> par_ok z
       \<and> last_in_level_order is_leaf (Some r) (fst z)"
proof -
  define B where "B = bfs_par [(([], r), None)]"
  let ?P = "\<lambda>x :: 'a ptr_pair. is_leaf (snd (fst x))"
  have setB: "fst ` set B = set (ptrs [] (Some r))"
    unfolding B_def by (rule set_bfs_par_root)
  have sorted: "sorted_wrt level_before (map (\<lambda>x. fst (fst x)) B)"
    unfolding B_def by (rule bfs_par_root_sorted)
  have ok: "\<forall>x\<in>set B. par_ok x"
    unfolding B_def by (rule bfs_par_ok) (simp add: par_ok_def)
  have inB: "fst x \<in> set (ptrs [] (Some r))" if "x \<in> set B" for x
    using that unfolding setB [symmetric] by (rule imageI)
  have exB: "\<exists>y'\<in>set B. fst y' = y" if "y \<in> set (ptrs [] (Some r))" for y
    using that unfolding setB [symmetric] by (auto elim: imageE)
  from some_leaf [of "Some r" "[]"] obtain y0 where "y0 \<in> set (ptrs [] (Some r))" "is_leaf (snd y0)"
    by auto
  with exB [of y0] obtain y where "y \<in> set B" "?P y" by auto
  then have ne: "filter ?P B \<noteq> []" by (auto simp: filter_empty_conv)
  define z where "z = last (filter ?P B)"
  note lf = last_filter_sorted [OF sorted ne, folded z_def]
  from lf have zB: "z \<in> set B" and pz: "?P z"
    and zlast: "\<forall>y\<in>set B. ?P y \<longrightarrow> y = z \<or> level_before (fst (fst y)) (fst (fst z))"
    by simp_all
  have scan: "rightmost_scan [(([], r), None)] None = Some z"
    unfolding rightmost_scan_bfs B_def [symmetric] foldl_last_filter using ne by (simp add: z_def)
  have "fst z \<in> set (ptrs [] (Some r))" using zB by (rule inB)
  moreover have "\<forall>y\<in>set (ptrs [] (Some r)). is_leaf (snd y) \<longrightarrow>
                   y = fst z \<or> level_before (fst y) (fst (fst z))"
  proof (intro ballI impI)
    fix y assume "y \<in> set (ptrs [] (Some r))" and ly: "is_leaf (snd y)"
    with exB [of y] obtain y' where y': "y' \<in> set B" and fy: "fst y' = y" by auto
    from zlast [rule_format, OF y'] ly fy show "y = fst z \<or> level_before (fst y) (fst (fst z))"
      by auto
  qed
  ultimately have "last_in_level_order is_leaf (Some r) (fst z)"
    using pz by (simp add: last_in_level_order_def)
  with scan ok zB show ?thesis by blast
qed

lemma ptrs_leaf_root: "is_leaf r \<Longrightarrow> ptrs [] (Some r) = [([], r)]"
  by (cases r) (simp add: is_leaf_def)

lemma deref_below_leaf: "deref t p = Some m \<Longrightarrow> is_leaf m \<Longrightarrow> deref t (p @ e # s) = None"
  by (cases e) (simp_all add: deref_append is_leaf_def)

lemma count_leaf: "is_leaf m \<Longrightarrow> count_nodes (Some m) = 1"
  by (cases m) (simp add: is_leaf_def)

lemma count_pos: "t \<noteq> None \<Longrightarrow> 0 < count_nodes t"
  by (cases t; cases "the t") auto

lemma size_minus_two: "2 \<le> unat (s :: size_t) \<Longrightarrow> unat (s - 2) + 2 = unat s"
proof -
  assume a: "2 \<le> unat s"
  then have "(2 :: size_t) \<le> s" by (simp add: word_le_nat_alt)
  then have "unat (s - 2) = unat s - unat (2 :: size_t)" by (rule unat_sub)
  with a show ?thesis by simp
qed

lemma remove_internal:
  assumes root: "root t = Some r"
    and full: "isFullBinaryTreeHelper (Some r)"
    and first: "first_in_level_order (\<lambda>n. data n = v) (Some r) (tp, tn)"
    and internal: "\<not> is_leaf tn"
  shows "\<exists>pp a rn ml mr. last_in_level_order is_leaf (Some r) (pp @ [a], rn)
      \<and> deref (Some r) (pp @ [Left]) = Some ml \<and> is_leaf ml
      \<and> deref (Some r) (pp @ [Right]) = Some mr \<and> is_leaf mr
      \<and> remove_tree v t
           = \<lparr>root = update_at pp drop_children (update_at tp (set_data (data rn)) (Some r)),
              size_f = size_f t - 2\<rparr>"
proof -
  from first have tmem: "(tp, tn) \<in> set (ptrs [] (Some r))"
    by (simp add: first_in_level_order_def)
  from find_target_first [OF first] obtain par
    where ft: "find_target v [(([], r), None)] = Some ((tp, tn), par)" by blast
  from internal full_children [OF full tmem] have kids: "left tn \<noteq> None" "right tn \<noteq> None"
    by (auto simp: is_leaf_def)
  from rightmost_scan_last [of r] obtain z where scan: "rightmost_scan [(([], r), None)] None = Some z"
    and zok: "par_ok z" and zlast: "last_in_level_order is_leaf (Some r) (fst z)" by blast
  obtain rp rn rpar where z: "z = ((rp, rn), rpar)" by (cases z) auto
  from zlast z have rmem: "(rp, rn) \<in> set (ptrs [] (Some r))" and rleaf: "is_leaf rn"
    and rlast: "\<forall>y\<in>set (ptrs [] (Some r)). is_leaf (snd y) \<longrightarrow>
                  y = (rp, rn) \<or> level_before (fst y) rp"
    by (simp_all add: last_in_level_order_def)
  have ne: "rp \<noteq> tp"
  proof
    assume "rp = tp"
    with rmem tmem have "rn = tn" using ptrs_functional by metis
    with rleaf internal show False by simp
  qed
  have "rpar \<noteq> None"
  proof
    assume "rpar = None"
    with zok z have "rp = []" by (simp add: par_ok_def)
    with rmem have "rn = r" by (simp add: ptrs_root_deref)
    with rleaf have "ptrs [] (Some r) = [([], r)]" by (simp add: ptrs_leaf_root)
    with tmem have "tp = []" by simp
    with \<open>rp = []\<close> ne show False by simp
  qed
  then obtain pq where rpar: "rpar = Some pq" by blast
  with zok z obtain a where rp: "rp = fst pq @ [a]" by (auto simp: par_ok_def)
  define pp where "pp = fst pq"
  have rd: "deref (Some r) (pp @ [a]) = Some rn"
    using rmem rp by (simp add: ptrs_root_deref pp_def)
  from deref_prefix [OF rd] obtain pn where pn: "deref (Some r) pp = Some pn" by blast
  have ca: "child a pn = Some rn" using rd pn by (simp add: deref_append)
  have "(pp, pn) \<in> set (ptrs [] (Some r))" using pn by (simp add: ptrs_root_deref)
  from full_children [OF full this] ca have both: "left pn \<noteq> None" "right pn \<noteq> None"
    by (cases a; auto)+
  have sib: "is_leaf m" if m: "deref (Some r) (pp @ [b]) = Some m" for b m
  proof (rule ccontr)
    assume "\<not> is_leaf m"
    then have "(\<exists>c. child Left m = Some c) \<or> (\<exists>c. child Right m = Some c)"
      by (auto simp: is_leaf_def)
    then obtain e c where "child e m = Some c" by blast
    then have "deref (Some r) ((pp @ [b]) @ [e]) = Some c"
      by (simp only: deref_append [of _ "pp @ [b]"] m) simp
    from leaf_below [OF this] obtain s m' where d: "deref (Some r) (((pp @ [b]) @ [e]) @ s) = Some m'"
      and l: "is_leaf m'" by blast
    let ?q = "((pp @ [b]) @ [e]) @ s"
    have "(?q, m') \<in> set (ptrs [] (Some r))" using d by (simp only: ptrs_root_deref)
    with rlast l have "(?q, m') = (rp, rn) \<or> level_before ?q rp" by force
    then have "length ?q \<le> length rp"
    proof
      assume "(?q, m') = (rp, rn)"
      then show ?thesis by simp
    next
      assume "level_before ?q rp"
      then show ?thesis by (rule level_before_length)
    qed
    then show False by (simp add: rp pp_def)
  qed
  obtain ml where ml: "deref (Some r) (pp @ [Left]) = Some ml"
    using both pn by (auto simp: deref_append)
  obtain mr where mr: "deref (Some r) (pp @ [Right]) = Some mr"
    using both pn by (auto simp: deref_append)
  have res: "remove_tree v t
           = \<lparr>root = update_at pp drop_children (update_at tp (set_data (data rn)) (Some r)),
              size_f = size_f t - 2\<rparr>"
  proof -
    have scan': "rightmost_scan [(([], r), None)] None = Some ((rp, rn), Some pq)"
      using scan z rpar by simp
    from kids obtain lk rk where lk: "left tn = Some lk" and rk: "right tn = Some rk" by auto
    show ?thesis
      using ne
      by (simp add: remove_tree_def pp_def Let_def root ft scan' lk rk
          del: find_target.simps rightmost_scan.simps)
  qed
  have "last_in_level_order is_leaf (Some r) (pp @ [a], rn)"
    using zlast z rp by (simp add: pp_def)
  with ml mr sib [OF ml] sib [OF mr] res show ?thesis by blast
qed

subsection \<open>The claims\<close>

text \<open>
  C1. Every public mutation keeps every node at 0 or 2 children and keeps
  \<^verbatim>\<open>size\<close> equal to the number of reachable nodes. The code breaks the second
  half: \<^verbatim>\<open>insert(10); insert(20); insert(30); insert(40); remove(20); remove(20)\<close>.
  The first removal leaves the root with an inner left child (40 over 30, 30)
  and the leaf 20 on the right. The second removal finds that leaf, unlinks
  both children of the root and subtracts 2: one node is reachable and
  \<^verbatim>\<open>size\<close> is 3.
\<close>

theorem size_differs_from_node_count:
  "remove_tree 20 (inserts [10, 20, 30, 40 :: int])
     = \<lparr>root = Some (Node 10 (Some (Node 40 (Some (Node 30 None None)) (Some (Node 30 None None))))
                              (Some (Node 20 None None))), size_f = 5\<rparr>
   \<and> remove_tree 20 (remove_tree 20 (inserts [10, 20, 30, 40 :: int]))
     = \<lparr>root = Some (Node 10 None None), size_f = 3\<rparr>
   \<and> count_nodes (root (remove_tree 20 (remove_tree 20 (inserts [10, 20, 30, 40 :: int])))) = 1
   \<and> isFullBinaryTree (remove_tree 20 (remove_tree 20 (inserts [10, 20, 30, 40 :: int])))"
  by (simp add: inserts_def insert_tree_def empty_tree_def remove_tree_def isFullBinaryTree_def
      push_children_def push_children_par_def add_children_def drop_children_def set_data_def)




text \<open>
  C3. Let the tree have 0 or 2 children at every node and \<^verbatim>\<open>size\<close> equal to
  its node count, and let the first node in level order that holds \<open>v\<close> be
  an inner node, at \<open>tp\<close>. Then \<^verbatim>\<open>remove(v)\<close> finds the last node without
  children in level order, at \<open>pp @ [a]\<close> with value \<open>data rn\<close>; afterwards
  the two children of \<open>pp\<close> are gone, the node at \<open>tp\<close> is still there and
  holds \<open>data rn\<close>, every other position holds what it held, two nodes
  fewer are reachable, and \<^verbatim>\<open>size\<close> is smaller by exactly 2.
\<close>

theorem remove_internal_target:
  assumes full: "isFullBinaryTree t"
    and inv: "unat (size_f t) = count_nodes (root t)"
    and first: "first_in_level_order (\<lambda>n. data n = v) (root t) (tp, tn)"
    and internal: "\<not> is_leaf tn"
  shows "\<exists>pp a rn. last_in_level_order is_leaf (root t) (pp @ [a], rn)
          \<and> data_at (root (remove_tree v t))
              = (\<lambda>q. if q = pp @ [Left] \<or> q = pp @ [Right] then None
                     else if q = tp then Some (data rn) else data_at (root t) q)
          \<and> count_nodes (root (remove_tree v t)) + 2 = count_nodes (root t)
          \<and> size_f (remove_tree v t) = size_f t - 2
          \<and> unat (size_f (remove_tree v t)) + 2 = unat (size_f t)"
proof -
  from first obtain r where r: "root t = Some r"
    by (cases "root t") (auto simp: first_in_level_order_def)
  from full r have full': "isFullBinaryTreeHelper (Some r)" by (simp add: isFullBinaryTree_def)
  from first r have first': "first_in_level_order (\<lambda>n. data n = v) (Some r) (tp, tn)" by simp
  from remove_internal [OF r full' first' internal] obtain pp a rn ml mr
    where last: "last_in_level_order is_leaf (Some r) (pp @ [a], rn)"
      and ml: "deref (Some r) (pp @ [Left]) = Some ml" "is_leaf ml"
      and mr: "deref (Some r) (pp @ [Right]) = Some mr" "is_leaf mr"
      and res: "remove_tree v t
           = \<lparr>root = update_at pp drop_children (update_at tp (set_data (data rn)) (Some r)),
              size_f = size_f t - 2\<rparr>"
    by blast
  let ?t1 = "update_at tp (set_data (data rn)) (Some r)"
  let ?t2 = "update_at pp drop_children ?t1"
  from res have root': "root (remove_tree v t) = ?t2"
    and size': "size_f (remove_tree v t) = size_f t - 2"
    by simp_all
  have tvalid: "data_at (Some r) tp \<noteq> None"
    using first' by (simp add: first_in_level_order_def ptrs_root_deref data_at_def)
  have cl: "count_nodes (deref ?t1 (pp @ [Left])) = 1"
    by (simp only: count_deref_set_data ml count_leaf)
  have cr: "count_nodes (deref ?t1 (pp @ [Right])) = 1"
    by (simp only: count_deref_set_data mr count_leaf)
  have count: "count_nodes ?t2 + 2 = count_nodes (Some r)"
    using count_drop_children [OF cl cr] by (simp only: count_set_data)
  have shape: "data_at ?t2 q
      = (if q = pp @ [Left] \<or> q = pp @ [Right] then None
         else if q = tp then Some (data rn) else data_at (Some r) q)" for q
  proof (cases "\<exists>b s. q = pp @ b # s")
    case True
    then obtain b s where q: "q = pp @ b # s" by blast
    have lhs: "data_at ?t2 q = None"
      using True by (simp only: data_at_drop_children if_True)
    show ?thesis
    proof (cases s)
      case Nil
      then show ?thesis using lhs q by (cases b) simp_all
    next
      case (Cons e s')
      obtain m where m: "deref (Some r) (pp @ [b]) = Some m" "is_leaf m"
        using ml mr by (cases b) auto
      have "deref (Some r) ((pp @ [b]) @ e # s') = None"
        by (rule deref_below_leaf [OF m])
      then have none: "data_at (Some r) q = None"
        by (simp add: q Cons data_at_def)
      with tvalid have "q \<noteq> tp" by auto
      moreover have "q \<noteq> pp @ [Left]" "q \<noteq> pp @ [Right]" by (simp_all add: q Cons)
      ultimately show ?thesis using lhs none by simp
    qed
  next
    case False
    then have "q \<noteq> pp @ [Left]" "q \<noteq> pp @ [Right]" by auto
    moreover have "data_at ?t2 q = (if q = tp then Some (data rn) else data_at (Some r) q)"
      using False tvalid by (simp add: data_at_drop_children data_at_set_data)
    ultimately show ?thesis by simp
  qed
  have "?t2 \<noteq> None" by (simp add: update_at_None)
  from count_pos [OF this] count inv r have "2 \<le> unat (size_f t)" by simp
  from size_minus_two [OF this] size'
  have nat: "unat (size_f (remove_tree v t)) + 2 = unat (size_f t)" by simp
  have "data_at (root (remove_tree v t))
              = (\<lambda>q. if q = pp @ [Left] \<or> q = pp @ [Right] then None
                     else if q = tp then Some (data rn) else data_at (root t) q)"
    unfolding root' r using shape by (intro ext)
  moreover have "count_nodes (root (remove_tree v t)) + 2 = count_nodes (root t)"
    unfolding root' r by (rule count)
  moreover have "last_in_level_order is_leaf (root t) (pp @ [a], rn)"
    unfolding r by (rule last)
  ultimately show ?thesis using size' nat by blast
qed

theorem remove_internal_target_witness:
  "isFullBinaryTree (inserts [10, 20, 30 :: int])
   \<and> unat (size_f (inserts [10, 20, 30 :: int])) = count_nodes (root (inserts [10, 20, 30 :: int]))
   \<and> first_in_level_order (\<lambda>n. data n = 20) (root (inserts [10, 20, 30 :: int]))
        ([Left], Node 20 (Some (Node 30 None None)) (Some (Node 30 None None)))
   \<and> \<not> is_leaf (Node (20 :: int) (Some (Node 30 None None)) (Some (Node 30 None None)))
   \<and> (\<exists>pp a rn. last_in_level_order is_leaf (root (inserts [10, 20, 30 :: int])) (pp @ [a], rn)
          \<and> data_at (root (remove_tree 20 (inserts [10, 20, 30 :: int])))
              = (\<lambda>q. if q = pp @ [Left] \<or> q = pp @ [Right] then None
                     else if q = [Left] then Some (data rn)
                     else data_at (root (inserts [10, 20, 30 :: int])) q)
          \<and> count_nodes (root (remove_tree 20 (inserts [10, 20, 30 :: int]))) + 2
              = count_nodes (root (inserts [10, 20, 30 :: int]))
          \<and> unat (size_f (remove_tree 20 (inserts [10, 20, 30 :: int]))) + 2
              = unat (size_f (inserts [10, 20, 30 :: int])))"
proof -
  have t: "inserts [10, 20, 30 :: int]
      = \<lparr>root = Some (Node 10 (Some (Node 20 (Some (Node 30 None None)) (Some (Node 30 None None))))
                               (Some (Node 20 None None))), size_f = 5\<rparr>"
    by (simp add: inserts_def insert_tree_def empty_tree_def push_children_def add_children_def)
  have a: "isFullBinaryTree (inserts [10, 20, 30 :: int])"
    by (simp add: t isFullBinaryTree_def)
  have b: "unat (size_f (inserts [10, 20, 30 :: int])) = count_nodes (root (inserts [10, 20, 30 :: int]))"
    by (simp add: t)
  have c: "first_in_level_order (\<lambda>n. data n = 20) (root (inserts [10, 20, 30 :: int]))
        ([Left], Node 20 (Some (Node 30 None None)) (Some (Node 30 None None)))"
    by (simp add: t first_in_level_order_def level_before_def)
  have d: "\<not> is_leaf (Node (20 :: int) (Some (Node 30 None None)) (Some (Node 30 None None)))"
    by (simp add: is_leaf_def)
  from remove_internal_target [OF a b c d] a b c d show ?thesis by blast
qed

text \<open>
  C4 as stated: a truncated or invalid stream makes deserialization fail
  hard and leaves the target cleared. The text decoder does neither. The
  serialization of the three-node tree after \<^verbatim>\<open>insert(10); insert(20)\<close>, cut
  after the second value token, decodes into a root with a left child only
  and \<^verbatim>\<open>size\<close> 3: not the cleared tree, and not a full binary tree. The call
  returns normally; the only trace is the fail state of the stream.
\<close>

theorem truncated_stream_not_cleared:
  "serializeText show_size (inserts [10, 20])
     = ''3'' @ [CHR 0x0A] @ ''10 20 null null 20 null null '' @ [CHR 0x0A]
   \<and> deserializeText 0 parse_size empty_tree \<lparr>buf = ''3'' @ [CHR 0x0A] @ ''10 20'', failbit = False\<rparr>
     = (\<lparr>root = Some (Node 10 (Some (Node 20 None None)) None), size_f = 3\<rparr>,
        \<lparr>buf = [], failbit = True\<rparr>)
   \<and> \<lparr>root = Some (Node (10 :: size_t) (Some (Node 20 None None)) None), size_f = 3\<rparr>
       \<noteq> clear \<lparr>root = Some (Node 10 (Some (Node 20 None None)) None), size_f = 3\<rparr>
   \<and> \<not> isFullBinaryTree \<lparr>root = Some (Node (10 :: size_t) (Some (Node 20 None None)) None), size_f = 3\<rparr>"
  by (simp add: serializeText_def show_size_def parse_size_def inserts_def insert_tree_def
      empty_tree_def push_children_def add_children_def decimal.simps
      deserializeText_def clear_def extract_size_def extract_token_def isspace_def
      isdigit_def decimal_value_def deserializeHelper.simps isFullBinaryTree_def char_of_def bit_0)

text \<open>
  C4 amended. \<^verbatim>\<open>deserializeText\<close> has no failure of its own and does not
  clear the target when the stream ends early. With the header read as \<open>n\<close>:
  when a value token follows, the tree ends with a root holding that value
  (and whatever could be decoded below it) and \<^verbatim>\<open>size\<close> \<open>n\<close>; when nothing
  follows, the tree has no root and \<^verbatim>\<open>size\<close> \<open>n\<close>. What the target held before
  the call never matters: it is cleared first.
\<close>

theorem deserializeText_not_cleared:
  assumes "extract_size uninit s = (n, s1)"
  shows "(\<forall>tok s2. extract_token s1 = (Some tok, s2) \<and> tok \<noteq> ''null'' \<longrightarrow>
            (\<exists>l r s'. deserializeText uninit parse_value target s
                = (\<lparr>root = Some (Node (parse_value tok) l r), size_f = n\<rparr>, s')))
     \<and> (\<forall>s2. extract_token s1 = (None, s2) \<longrightarrow>
            deserializeText uninit parse_value target s = (\<lparr>root = None, size_f = n\<rparr>, s2))
     \<and> deserializeText uninit parse_value target s = deserializeText uninit parse_value empty_tree s"
proof (intro conjI allI impI)
  fix tok s2
  assume a: "extract_token s1 = (Some tok, s2) \<and> tok \<noteq> ''null''"
  obtain l s3 where l: "deserializeHelper parse_value s2 = (l, s3)"
    by (cases "deserializeHelper parse_value s2")
  obtain r s4 where r: "deserializeHelper parse_value s3 = (r, s4)"
    by (cases "deserializeHelper parse_value s3")
  have "deserializeHelper parse_value s1 = (Some (Node (parse_value tok) l r), s4)"
    using a l r by (subst deserializeHelper.simps) simp
  then show "\<exists>l r s'. deserializeText uninit parse_value target s
                = (\<lparr>root = Some (Node (parse_value tok) l r), size_f = n\<rparr>, s')"
    using assms by (simp add: deserializeText_def clear_def)
next
  fix s2
  assume "extract_token s1 = (None, s2)"
  then have "deserializeHelper parse_value s1 = (None, s2)"
    by (subst deserializeHelper.simps) simp
  then show "deserializeText uninit parse_value target s = (\<lparr>root = None, size_f = n\<rparr>, s2)"
    using assms by (simp add: deserializeText_def clear_def)
next
  show "deserializeText uninit parse_value target s = deserializeText uninit parse_value empty_tree s"
    by (simp add: deserializeText_def clear_def)
qed

theorem deserializeText_not_cleared_witness:
  "extract_size 0 \<lparr>buf = ''3'' @ [CHR 0x0A] @ ''10 20'', failbit = False\<rparr>
     = (3, \<lparr>buf = [CHR 0x0A] @ ''10 20'', failbit = False\<rparr>)
   \<and> extract_token \<lparr>buf = [CHR 0x0A] @ ''10 20'', failbit = False\<rparr>
     = (Some ''10'', \<lparr>buf = '' 20'', failbit = False\<rparr>)
   \<and> ''10'' \<noteq> ''null''
   \<and> (\<exists>l r s'. deserializeText 0 parse_size (inserts [7])
                    \<lparr>buf = ''3'' @ [CHR 0x0A] @ ''10 20'', failbit = False\<rparr>
           = (\<lparr>root = Some (Node (parse_size ''10'') l r), size_f = 3\<rparr>, s'))
   \<and> extract_size 0 \<lparr>buf = ''3'', failbit = False\<rparr> = (3, \<lparr>buf = [], failbit = False\<rparr>)
   \<and> extract_token \<lparr>buf = [], failbit = False\<rparr> = (None, \<lparr>buf = [], failbit = True\<rparr>)
   \<and> deserializeText 0 parse_size (inserts [7]) \<lparr>buf = ''3'', failbit = False\<rparr>
       = (\<lparr>root = None, size_f = 3\<rparr>, \<lparr>buf = [], failbit = True\<rparr>)"
proof -
  have a: "extract_size 0 \<lparr>buf = ''3'' @ [CHR 0x0A] @ ''10 20'', failbit = False\<rparr>
     = (3, \<lparr>buf = [CHR 0x0A] @ ''10 20'', failbit = False\<rparr>)"
    by (simp add: extract_size_def isspace_def isdigit_def decimal_value_def)
  have b: "extract_token \<lparr>buf = [CHR 0x0A] @ ''10 20'', failbit = False\<rparr>
     = (Some ''10'', \<lparr>buf = '' 20'', failbit = False\<rparr>)"
    by (simp add: extract_token_def isspace_def)
  have c: "extract_size 0 \<lparr>buf = ''3'', failbit = False\<rparr> = (3, \<lparr>buf = [], failbit = False\<rparr>)"
    by (simp add: extract_size_def isspace_def isdigit_def decimal_value_def)
  have d: "extract_token \<lparr>buf = [], failbit = False\<rparr> = (None, \<lparr>buf = [], failbit = True\<rparr>)"
    by (simp add: extract_token_def)
  note t = deserializeText_not_cleared [OF a, of parse_size "inserts [7]", THEN conjunct1]
  note h = deserializeText_not_cleared [OF c, of parse_size "inserts [7]",
      THEN conjunct2, THEN conjunct1]
  from t b have "\<exists>l r s'. deserializeText 0 parse_size (inserts [7])
                    \<lparr>buf = ''3'' @ [CHR 0x0A] @ ''10 20'', failbit = False\<rparr>
           = (\<lparr>root = Some (Node (parse_size ''10'') l r), size_f = 3\<rparr>, s')"
    by simp
  moreover from h d have "deserializeText 0 parse_size (inserts [7]) \<lparr>buf = ''3'', failbit = False\<rparr>
       = (\<lparr>root = None, size_f = 3\<rparr>, \<lparr>buf = [], failbit = True\<rparr>)"
    by simp
  ultimately show ?thesis using a b c d by simp
qed

text \<open>
  C5. On an empty tree \<^verbatim>\<open>insert(v)\<close> makes a single root holding \<open>v\<close> with
  \<^verbatim>\<open>size\<close> 1. On a non-empty tree there is a node \<open>p\<close> without children that
  comes first in level order among such nodes; after the call the tree has
  the same node at every old position with the same value, and two further
  nodes, the children of \<open>p\<close>, both holding \<open>v\<close>; \<^verbatim>\<open>size\<close> grew by 2.
\<close>

theorem insert_attaches_pair:
  "(root t = None \<longrightarrow> insert_tree v t = \<lparr>root = Some (Node v None None), size_f = 1\<rparr>)
   \<and> (\<forall>r. root t = Some r \<longrightarrow>
        (\<exists>p n. first_in_level_order is_leaf (Some r) (p, n)
           \<and> data_at (root (insert_tree v t))
               = (data_at (Some r))(p @ [Left] \<mapsto> v, p @ [Right] \<mapsto> v)
           \<and> count_nodes (root (insert_tree v t)) = count_nodes (Some r) + 2
           \<and> size_f (insert_tree v t) = size_f t + 2))"
proof (intro conjI impI allI)
  assume "root t = None"
  then show "insert_tree v t = \<lparr>root = Some (Node v None None), size_f = 1\<rparr>"
    by (simp add: insert_tree_def)
next
  fix r
  assume r: "root t = Some r"
  obtain p where p: "insert_loop [([], r)] = Some p"
    using insert_loop_finds [of "[([], r)]"] by auto
  from insert_loop_first [OF p] obtain n where n: "first_in_level_order is_leaf (Some r) (p, n)"
    by blast
  then have d: "deref (Some r) p = Some n" and l: "is_leaf n"
    by (simp_all add: first_in_level_order_def ptrs_root_deref)
  have t': "insert_tree v t = \<lparr>root = update_at p (add_children v) (Some r), size_f = size_f t + 2\<rparr>"
    using r p by (simp add: insert_tree_def)
  have "data_at (root (insert_tree v t)) = (data_at (Some r))(p @ [Left] \<mapsto> v, p @ [Right] \<mapsto> v)"
    unfolding t' using data_at_add_children [OF d l] by (intro ext) simp
  moreover have "count_nodes (root (insert_tree v t)) = count_nodes (Some r) + 2"
    unfolding t' using count_add_children [OF d l] by simp
  ultimately show "\<exists>p n. first_in_level_order is_leaf (Some r) (p, n)
           \<and> data_at (root (insert_tree v t))
               = (data_at (Some r))(p @ [Left] \<mapsto> v, p @ [Right] \<mapsto> v)
           \<and> count_nodes (root (insert_tree v t)) = count_nodes (Some r) + 2
           \<and> size_f (insert_tree v t) = size_f t + 2"
    using n t' by auto
qed

theorem insert_attaches_pair_witness:
  "root (empty_tree :: int FullBinaryTree) = None
   \<and> insert_tree 10 (empty_tree :: int FullBinaryTree) = \<lparr>root = Some (Node 10 None None), size_f = 1\<rparr>
   \<and> root (inserts [10, 20 :: int]) = Some (Node 10 (Some (Node 20 None None)) (Some (Node 20 None None)))
   \<and> (\<exists>p n. first_in_level_order is_leaf
                (Some (Node (10 :: int) (Some (Node 20 None None)) (Some (Node 20 None None)))) (p, n)
         \<and> data_at (root (insert_tree 30 (inserts [10, 20 :: int])))
             = (data_at (Some (Node 10 (Some (Node 20 None None)) (Some (Node 20 None None)))))
                 (p @ [Left] \<mapsto> 30, p @ [Right] \<mapsto> 30)
         \<and> size_f (insert_tree 30 (inserts [10, 20 :: int])) = size_f (inserts [10, 20 :: int]) + 2)"
proof -
  have e: "root (empty_tree :: int FullBinaryTree) = None"
    by (simp add: empty_tree_def)
  have r: "root (inserts [10, 20 :: int])
             = Some (Node 10 (Some (Node 20 None None)) (Some (Node 20 None None)))"
    by (simp add: inserts_def insert_tree_def empty_tree_def push_children_def add_children_def)
  show ?thesis
    using insert_attaches_pair [of "empty_tree :: int FullBinaryTree" 10]
      insert_attaches_pair [of "inserts [10, 20 :: int]" 30] e r
    by auto
qed

text \<open>
  C6. A value can still be found right after it was removed. After
  \<^verbatim>\<open>insert(10); insert(20); insert(30)\<close> the first 20 in level order is the
  left child of the root, an inner node. \<^verbatim>\<open>remove(20)\<close> overwrites it with the
  30 of the last leaf and unlinks that leaf and its sibling; the node stays,
  and so does the other 20 in the right child of the root.
\<close>

theorem removed_value_still_found:
  "find_tree 20 (inserts [10, 20, 30 :: int])
   \<and> find_target (20 :: int) [(([], Node 10 (Some (Node 20 (Some (Node 30 None None)) (Some (Node 30 None None))))
                                  (Some (Node 20 None None))), None)]
       = Some (([Left], Node 20 (Some (Node 30 None None)) (Some (Node 30 None None))),
               Some ([], Node 10 (Some (Node 20 (Some (Node 30 None None)) (Some (Node 30 None None))))
                                  (Some (Node 20 None None))))
   \<and> remove_tree 20 (inserts [10, 20, 30 :: int])
       = \<lparr>root = Some (Node 10 (Some (Node 30 None None)) (Some (Node 20 None None))), size_f = 3\<rparr>
   \<and> find_tree 20 (remove_tree 20 (inserts [10, 20, 30 :: int]))"
  by (simp add: inserts_def insert_tree_def empty_tree_def remove_tree_def find_tree_def
      push_children_def push_children_par_def add_children_def drop_children_def set_data_def)

text \<open>
  C7. After \<open>k\<close> calls of \<^verbatim>\<open>insert\<close> on an empty tree \<^verbatim>\<open>getSize()\<close> is 0 for
  \<open>k = 0\<close> and \<open>1 + 2 * (k - 1)\<close> for \<open>k \<ge> 1\<close>. The counter is a 64-bit
  \<^verbatim>\<open>size_t\<close>: the equation holds in machine arithmetic for every \<open>k\<close>, and as
  an equation between natural numbers as long as the count fits the counter.
\<close>

theorem size_law:
  "getSize (inserts vs) = (if length vs = 0 then 0 else of_nat (1 + 2 * (length vs - 1)))
   \<and> (length vs \<le> 2 ^ 63 \<longrightarrow>
        unat (getSize (inserts vs)) = (if length vs = 0 then 0 else 1 + 2 * (length vs - 1)))"
  using inserts_size [of vs] inserts_size_unat [of vs] by (simp add: getSize_def)

theorem size_law_witness:
  "length [10, 20, 30 :: int] \<le> 2 ^ 63 \<and> unat (getSize (inserts [10, 20, 30 :: int])) = 5
   \<and> getSize (inserts [10, 20, 30 :: int]) = 5"
  using size_law [of "[10, 20, 30 :: int]"] by simp

text \<open>
  C8. Removing a value whose first occurrence is a leaf with a parent deletes
  exactly two nodes. The code unlinks both children of the parent whatever
  the sibling is: in the tree below (every node has 0 or 2 children, \<^verbatim>\<open>size\<close>
  is the node count 5) the first 20 is the right child of the root, a leaf,
  and its sibling carries two children. \<^verbatim>\<open>remove(20)\<close> takes four nodes out of
  the tree and subtracts 2 from \<^verbatim>\<open>size\<close>.
\<close>

theorem leaf_removal_drops_sibling_subtree:
  "isFullBinaryTree \<lparr>root = Some (Node (10 :: int)
        (Some (Node 40 (Some (Node 30 None None)) (Some (Node 30 None None))))
        (Some (Node 20 None None))), size_f = 5\<rparr>
   \<and> count_nodes (Some (Node (10 :: int)
        (Some (Node 40 (Some (Node 30 None None)) (Some (Node 30 None None))))
        (Some (Node 20 None None)))) = 5
   \<and> find_target (20 :: int) [(([], Node 10
        (Some (Node 40 (Some (Node 30 None None)) (Some (Node 30 None None))))
        (Some (Node 20 None None))), None)]
       = Some (([Right], Node 20 None None),
               Some ([], Node 10
                 (Some (Node 40 (Some (Node 30 None None)) (Some (Node 30 None None))))
                 (Some (Node 20 None None))))
   \<and> remove_tree 20 \<lparr>root = Some (Node (10 :: int)
        (Some (Node 40 (Some (Node 30 None None)) (Some (Node 30 None None))))
        (Some (Node 20 None None))), size_f = 5\<rparr>
       = \<lparr>root = Some (Node 10 None None), size_f = 3\<rparr>
   \<and> count_nodes (Some (Node (10 :: int) None None)) = 1"
  by (simp add: remove_tree_def isFullBinaryTree_def
      push_children_def push_children_par_def drop_children_def set_data_def)

text \<open>
  C9. When no node holds \<open>v\<close>, \<^verbatim>\<open>remove(v)\<close> returns without touching the tree
  (root, nodes, values and \<^verbatim>\<open>size\<close> are the same, hence so is
  \<^verbatim>\<open>isFullBinaryTree()\<close>), and \<^verbatim>\<open>find(v)\<close> is false. Neither call has an error
  result.
\<close>

theorem remove_absent_value:
  assumes "v \<notin> set (node_values (root t))"
  shows "remove_tree v t = t \<and> \<not> find_tree v t
         \<and> getSize (remove_tree v t) = getSize t
         \<and> isFullBinaryTree (remove_tree v t) = isFullBinaryTree t"
proof (cases "root t")
  case None
  then show ?thesis by (simp add: remove_tree_def find_tree_def)
next
  case (Some r)
  with assms have "v \<notin> set (node_values (Some r))" by simp
  from absent_not_scanned [OF this] Some show ?thesis
    by (simp add: remove_tree_def find_tree_def)
qed

theorem remove_absent_value_witness:
  "(99 :: int) \<notin> set (node_values (root (inserts [10, 20, 30])))
   \<and> remove_tree 99 (inserts [10, 20, 30 :: int]) = inserts [10, 20, 30]
   \<and> \<not> find_tree 99 (inserts [10, 20, 30 :: int])"
proof -
  have h: "(99 :: int) \<notin> set (node_values (root (inserts [10, 20, 30])))"
    by (simp add: inserts_def insert_tree_def empty_tree_def push_children_def add_children_def)
  from remove_absent_value [OF h] h show ?thesis by simp
qed

text \<open>
  C10. \<^verbatim>\<open>deserializeText\<close> stores the header in \<^verbatim>\<open>size\<close> and never compares it with
  the nodes it decodes. When the first token of the stream is a decimal
  number that fits a \<^verbatim>\<open>size_t\<close>, \<^verbatim>\<open>getSize()\<close> returns that number afterwards,
  whatever follows. A stream with header 5 and one node decodes without any
  failure (the stream is still good) into a tree of one node with \<^verbatim>\<open>size\<close> 5.
\<close>

theorem header_size_unchecked:
  assumes "extract_token s = (Some tok, s')"
    and "\<forall>c\<in>set tok. isdigit c"
    and "decimal_value tok < 2 ^ 64"
  shows "getSize (fst (deserializeText uninit parse_value t s)) = of_nat (decimal_value tok)
    \<and> deserializeText 0 id (empty_tree :: string FullBinaryTree)
         \<lparr>buf = ''5'' @ [CHR 0x0A] @ ''A null null '' @ [CHR 0x0A], failbit = False\<rparr>
       = (\<lparr>root = Some (Node ''A'' None None), size_f = 5\<rparr>,
          \<lparr>buf = '' '' @ [CHR 0x0A], failbit = False\<rparr>)"
proof
  from extract_token_shape [OF assms(1)] obtain ws rest where nf: "\<not> failbit s"
    and tne: "tok \<noteq> []" and b: "buf s = ws @ tok @ rest" and ws: "\<forall>c\<in>set ws. isspace c"
    and rest: "rest = [] \<or> isspace (hd rest)"
    by blast
  from rest have rest': "rest = [] \<or> \<not> isdigit (hd rest)"
    using isspace_not_digit by blast
  note e = extract_size_digits [OF nf b ws tne assms(2) rest' assms(3)]
  show "getSize (fst (deserializeText uninit parse_value t s)) = of_nat (decimal_value tok)"
    by (simp add: deserializeText_def e getSize_def Let_def split: prod.splits)
next
  show "deserializeText 0 id (empty_tree :: string FullBinaryTree)
         \<lparr>buf = ''5'' @ [CHR 0x0A] @ ''A null null '' @ [CHR 0x0A], failbit = False\<rparr>
       = (\<lparr>root = Some (Node ''A'' None None), size_f = 5\<rparr>,
          \<lparr>buf = '' '' @ [CHR 0x0A], failbit = False\<rparr>)"
    by (simp add: deserializeText_def clear_def extract_size_def extract_token_def isspace_def
        isdigit_def decimal_value_def deserializeHelper.simps)
qed

theorem header_size_unchecked_witness:
  "extract_token \<lparr>buf = ''5'' @ [CHR 0x0A] @ ''A null null '' @ [CHR 0x0A], failbit = False\<rparr>
     = (Some ''5'', \<lparr>buf = [CHR 0x0A] @ ''A null null '' @ [CHR 0x0A], failbit = False\<rparr>)
   \<and> list_all isdigit ''5'' \<and> decimal_value ''5'' < 2 ^ 64
   \<and> getSize (fst (deserializeText 0 id (empty_tree :: string FullBinaryTree)
        \<lparr>buf = ''5'' @ [CHR 0x0A] @ ''A null null '' @ [CHR 0x0A], failbit = False\<rparr>)) = 5"
proof -
  have a: "extract_token \<lparr>buf = ''5'' @ [CHR 0x0A] @ ''A null null '' @ [CHR 0x0A], failbit = False\<rparr>
     = (Some ''5'', \<lparr>buf = [CHR 0x0A] @ ''A null null '' @ [CHR 0x0A], failbit = False\<rparr>)"
    by (simp add: extract_token_def isspace_def)
  have b: "\<forall>c\<in>set ''5''. isdigit c" by (simp add: isdigit_def)
  have c: "decimal_value ''5'' < 2 ^ 64" by (simp add: decimal_value_def)
  from header_size_unchecked [OF a b c, of 0 id empty_tree] a b c show ?thesis
    by (simp add: decimal_value_def getSize_def)
qed

end
